theory Spec2Isabelle
  imports Complex_Main
begin

section \<open>Monte Carlo pricing engine: data model\<close>

text \<open>
  The C++ type \<open>double\<close> is modelled by \<^typ>\<open>real\<close>. Where nothing else is said, arithmetic
  is exact and a literal such as \<open>1e-5\<close> or \<open>0.5\<close> is the number it denotes: the result of
  the program is then the modelled one up to the rounding of each operation. For the
  discretisation schemes the rounding is modelled as well (\<open>advance_rnd\<close>). The values of a
  \<open>double\<close> that are not real numbers (NaN, the infinities) have no
  counterpart. Where the C++ yields such a value or has undefined behaviour
  (\<open>path.back()\<close> of an empty vector, \<open>log\<close> of a negative price, \<open>0.0 / 0\<close>), the model
  says so with an explicit outcome instead of a number. The C++ type \<open>int\<close> of the step and
  path counts is modelled by \<^typ>\<open>int\<close> without wrap-around: the loop counters stay below
  \<open>N\<close> and \<open>M\<close>, and \<open>N + 1\<close> is an \<open>int\<close> unless \<open>N\<close> is the largest one.
\<close>

text \<open>
  The exceptions of the program, one constructor per \<open>throw\<close> site:
  \<^item> \<open>NullComponent\<close>: \<open>std::invalid_argument\<close>, "One or more components (SDE, FDM, RNG,
    Payoff) are null." (constructor of \<open>MCSolver\<close>);
  \<^item> \<open>NonPositiveInitialCondition\<close>: \<open>std::invalid_argument\<close>, "Initial conditions (S0,
    T, N, M) must be positive." (constructor of \<open>MCSolver\<close>);
  \<^item> \<open>InvalidStepSize\<close>: \<open>std::invalid_argument\<close>, "Time step (dt) must be positive."
    (the three \<open>advance\<close> methods);
  \<^item> \<open>InvalidConfiguration\<close>: \<open>std::runtime_error\<close>, "Time step (dt) must be positive."
    (\<open>MCSolver::solve\<close>);
  \<^item> \<open>NegativeAssetPrice\<close>: \<open>std::runtime_error\<close>, "Negative asset price encountered
    during simulation." (\<open>MCSolver::solve\<close>);
  \<^item> \<open>Undefined\<close>: no exception of the source; the run has no real-valued result (the
    accumulated sum has absorbed a payoff that is not a number).
\<close>

datatype error =
    NullComponent
  | NonPositiveInitialCondition
  | InvalidStepSize
  | InvalidConfiguration
  | NegativeAssetPrice
  | Undefined

subsection \<open>SDE.hpp, SDE.cpp\<close>

text \<open>
  \<open>class SDE\<close> is an abstract class with the two virtual methods \<open>drift(S, t)\<close> and
  \<open>diffusion(S, t)\<close>: an object is the pair of its two methods. \<open>GBM\<close> is the subclass
  with members \<open>mu\<close> and \<open>sigma\<close>. (The subclasses \<open>CEV\<close> and \<open>CIR\<close> implement the
  same two methods with \<open>std::pow\<close> and \<open>std::sqrt\<close>; the engine sees a model only through
  \<open>drift\<close> and \<open>diffusion\<close>.)
\<close>

record SDE =
  drift :: "real \<Rightarrow> real \<Rightarrow> real"
  diffusion :: "real \<Rightarrow> real \<Rightarrow> real"

definition GBM :: "real \<Rightarrow> real \<Rightarrow> SDE" where
  "GBM mu sigma = \<lparr>drift = (\<lambda>S t. mu * S), diffusion = (\<lambda>S t. sigma * S)\<rparr>"

subsection \<open>FDM.hpp, FDM.cpp\<close>

text \<open>
  The three schemes; each object holds the shared pointer to its \<open>SDE\<close>, which its
  constructor has checked to be non-null. The method \<open>advance\<close> is given twice: first in
  exact arithmetic, then with the rounding of each operation.
\<close>

datatype FDM =
    EulerMethod SDE
  | MilsteinMethod SDE
  | DriftAdjustedPredictorCorrector SDE

fun advance :: "FDM \<Rightarrow> real \<Rightarrow> real \<Rightarrow> real \<Rightarrow> real \<Rightarrow> error + real" where
  "advance (EulerMethod sde) S t dt dW =
     (if dt \<le> 0 then Inl InvalidStepSize
      else Inr (S + drift sde S t * dt + diffusion sde S t * dW))"
| "advance (MilsteinMethod sde) S t dt dW =
     (if dt \<le> 0 then Inl InvalidStepSize
      else
        let drift' = drift sde S t;
            diffusion' = diffusion sde S t;
            diffusionDerivative =
              (diffusion sde (S + 1 / 100000) t - diffusion sde S t) / (1 / 100000)
        in Inr (S + drift' * dt + diffusion' * dW
                  + 0.5 * diffusion' * diffusionDerivative * (dW * dW - dt)))"
| "advance (DriftAdjustedPredictorCorrector sde) S t dt dW =
     (if dt \<le> 0 then Inl InvalidStepSize
      else
        let drift' = drift sde S t;
            diffusion' = diffusion sde S t;
            S_predictor = S + drift' * dt + diffusion' * dW;
            drift_corrector = drift sde S_predictor (t + dt);
            S_corrected = S + 0.5 * (drift' + drift_corrector) * dt + diffusion' * dW
        in Inr S_corrected)"

text \<open>
  The same three methods with the rounding of \<open>double\<close> arithmetic written out: every
  operator of the C++ expression is the exact operation followed by the rounding \<open>rnd\<close>,
  in the order in which C++ evaluates the expression, and a literal is the rounded value of
  its decimal. The function \<open>advance\<close> above is \<open>advance_rnd\<close> for the rounding that changes
  nothing. The rounding matters where a difference of nearly equal numbers is divided by a
  small one, as in the difference quotient of the Milstein method.
\<close>

fun advance_rnd ::
  "(real \<Rightarrow> real) \<Rightarrow> FDM \<Rightarrow> real \<Rightarrow> real \<Rightarrow> real \<Rightarrow> real \<Rightarrow> error + real"
where
  "advance_rnd rnd (EulerMethod model) S t dt dW =
     (if dt \<le> 0 then Inl InvalidStepSize
      else Inr (rnd (rnd (S + rnd (drift model S t * dt)) + rnd (diffusion model S t * dW))))"
| "advance_rnd rnd (MilsteinMethod model) S t dt dW =
     (if dt \<le> 0 then Inl InvalidStepSize
      else
        let drift' = drift model S t;
            diffusion' = diffusion model S t;
            diffusionDerivative =
              rnd (rnd (diffusion model (rnd (S + rnd (1 / 100000))) t - diffusion model S t)
                   / rnd (1 / 100000))
        in Inr (rnd (rnd (rnd (S + rnd (drift' * dt)) + rnd (diffusion' * dW))
                     + rnd (rnd (rnd (rnd 0.5 * diffusion') * diffusionDerivative)
                            * rnd (rnd (dW * dW) - dt)))))"
| "advance_rnd rnd (DriftAdjustedPredictorCorrector model) S t dt dW =
     (if dt \<le> 0 then Inl InvalidStepSize
      else
        let drift' = drift model S t;
            diffusion' = diffusion model S t;
            S_predictor = rnd (rnd (S + rnd (drift' * dt)) + rnd (diffusion' * dW));
            drift_corrector = drift model S_predictor (rnd (t + dt));
            S_corrected =
              rnd (rnd (S + rnd (rnd (rnd 0.5 * rnd (drift' + drift_corrector)) * dt))
                   + rnd (diffusion' * dW))
        in Inr S_corrected)"

text \<open>
  The rounding of IEEE 754 binary64, the format of \<open>double\<close>: to the nearest number with a
  significand of 53 bits, a tie going to the even significand. (The range of the exponent
  is not bounded here: no overflow to infinity and no subnormal numbers.)
\<close>

definition round_to_even :: "real \<Rightarrow> int" where
  "round_to_even x =
     (let f = \<lfloor>x\<rfloor>; r = x - of_int f
      in if r < 1 / 2 then f
         else if 1 / 2 < r then f + 1
         else if even f then f else f + 1)"

definition binary64 :: "real \<Rightarrow> real" where
  "binary64 x =
     (if x = 0 then 0
      else
        let e = \<lfloor>log 2 \<bar>x\<bar>\<rfloor> - 52
        in of_int (round_to_even (x / 2 powr of_int e)) * 2 powr of_int e)"

subsection \<open>RNG.hpp, RNG.cpp\<close>

text \<open>
  \<open>class RNG\<close> has the one virtual method \<open>generate()\<close>, which returns a \<open>double\<close> and
  advances the state of the object. An object is its method together with its current
  state: for \<open>MersenneTwister\<close> the state is the \<open>std::mt19937\<close> engine and the
  \<open>std::normal_distribution\<close>, both fixed by the seed given to the constructor.
\<close>

record 'g RNG =
  generate :: "'g \<Rightarrow> real \<times> 'g"
  generator :: "'g"

text \<open>
  A random source that replays a buffer of draws drawn beforehand (and returns 0 once the
  buffer is used up).
\<close>

fun replay :: "real list \<Rightarrow> real \<times> real list" where
  "replay [] = (0, [])"
| "replay (z # zs) = (z, zs)"

subsection \<open>Payoff.hpp, Payoff.cpp\<close>

datatype Payoff =
    EuropeanCall real
  | EuropeanPut real
  | BarrierOption real real bool bool bool
  | AsianOption real bool

text \<open>\<open>operator()(double S)\<close>: the payoff at one price.\<close>

fun payoff_at :: "Payoff \<Rightarrow> real \<Rightarrow> real" where
  "payoff_at (EuropeanCall K) S = max (S - K) 0"
| "payoff_at (EuropeanPut K) S = max (K - S) 0"
| "payoff_at (BarrierOption K B isCall isUp isIn) S =
     (let isBarrierHit = (if isUp then S \<ge> B else S \<le> B)
      in if (if isIn then \<not> isBarrierHit else isBarrierHit) then 0
         else if isCall then max (S - K) 0
         else max (K - S) 0)"
| "payoff_at (AsianOption K isCall) S = 0"

text \<open>
  The geometric average of \<open>AsianOption::operator()(const std::vector<double>&)\<close>:
  the loop adds \<open>std::log(price)\<close> to \<open>logSum\<close> for each price in order, and the average
  is \<open>std::exp(logSum / path.size())\<close>. On an empty path this is \<open>exp(0.0 / 0)\<close>, and a
  negative price has no logarithm: both are NaN, here \<open>None\<close>. A price 0 among nonnegative
  prices has the logarithm \<open>-inf\<close>, so that \<open>logSum\<close> is \<open>-inf\<close> and the average is
  \<open>exp(-inf) = 0\<close>.
\<close>

definition geometricAverage :: "real list \<Rightarrow> real option" where
  "geometricAverage path =
     (if path = [] \<or> (\<exists>price \<in> set path. price < 0) then None
      else if 0 \<in> set path then Some 0
      else Some (exp (foldl (\<lambda>logSum price. logSum + ln price) 0 path / real (length path))))"

text \<open>
  \<open>operator()(const std::vector<double>& path)\<close>: the payoff on a path. The three
  terminal-value payoffs read \<open>path.back()\<close>, which is undefined on an empty vector
  (\<open>None\<close>).
\<close>

fun payoff_on_path :: "Payoff \<Rightarrow> real list \<Rightarrow> real option" where
  "payoff_on_path (AsianOption K isCall) path =
     (case geometricAverage path of
        None \<Rightarrow> None
      | Some average \<Rightarrow>
          Some (if isCall then max (average - K) 0 else max (K - average) 0))"
| "payoff_on_path p path =
     (if path = [] then None else Some (payoff_at p (last path)))"

subsection \<open>MCSolver.hpp, MCSolver.cpp\<close>

text \<open>
  The members of \<open>MCSolver\<close>. The constructor receives a tuple of four shared pointers,
  each of which may be null (\<open>None\<close>), and four scalars.
\<close>

record 'g MCSolver =
  sde :: SDE
  fdm :: FDM
  rng :: "'g RNG"
  payoff :: Payoff
  S0 :: real
  T :: real
  N :: int
  M :: int

type_synonym 'g config =
  "SDE option \<times> FDM option \<times> 'g RNG option \<times> Payoff option \<times> real \<times> real \<times> int \<times> int"

definition MCSolver_new :: "'g config \<Rightarrow> error + 'g MCSolver" where
  "MCSolver_new config =
     (case config of (sde', fdm', rng', payoff', S0', T', N', M') \<Rightarrow>
        if sde' = None \<or> fdm' = None \<or> rng' = None \<or> payoff' = None
        then Inl NullComponent
        else if S0' \<le> 0 \<or> T' \<le> 0 \<or> N' \<le> 0 \<or> M' \<le> 0
        then Inl NonPositiveInitialCondition
        else Inr \<lparr>sde = the sde', fdm = the fdm', rng = the rng', payoff = the payoff',
                  S0 = S0', T = T', N = N', M = M'\<rparr>)"

text \<open>
  The loop over the time steps, from step \<open>j\<close> on: the state of the loop is the price \<open>S\<close>,
  the path buffer and the state \<open>g\<close> of the random source. An exception ends the loop
  with \<open>Inl\<close>.
\<close>

function step_loop ::
  "'g MCSolver \<Rightarrow> real \<Rightarrow> int \<Rightarrow> real \<Rightarrow> real list \<Rightarrow> 'g \<Rightarrow> error + (real \<times> real list \<times> 'g)"
where
  "step_loop s dt j S path g =
     (if j < N s then
        (case generate (rng s) g of (z, g') \<Rightarrow>
           let dW = sqrt dt * z in
           (case advance (fdm s) S (of_int j * dt) dt dW of
              Inl e \<Rightarrow> Inl e
            | Inr S' \<Rightarrow>
                if S' < 0 then Inl NegativeAssetPrice
                else step_loop s dt (j + 1) S' (path[nat (j + 1) := S']) g'))
      else Inr (S, path, g))"
  by pat_completeness auto
termination
  by (relation "measure (\<lambda>(s, dt, j, S, path, g). nat (N s - j))") auto

declare step_loop.simps [simp del]

text \<open>
  One pass of the loop over the simulations, up to the payoff: \<open>S = S0\<close>, a buffer of
  \<open>N + 1\<close> values (value-initialised to 0) with \<open>path[0] = S0\<close>, then the time steps.
\<close>

definition simulate_path ::
  "'g MCSolver \<Rightarrow> real \<Rightarrow> 'g \<Rightarrow> error + (real \<times> real list \<times> 'g)"
where
  "simulate_path s dt g =
     step_loop s dt 0 (S0 s) ((replicate (nat (N s + 1)) 0)[0 := S0 s]) g"

text \<open>
  The choice of the payoff form: the \<open>dynamic_pointer_cast<AsianOption>\<close> succeeds on an
  \<open>AsianOption\<close> only.
\<close>

definition evaluate_payoff :: "Payoff \<Rightarrow> real \<Rightarrow> real list \<Rightarrow> real option" where
  "evaluate_payoff p S path =
     (case p of
        AsianOption K isCall \<Rightarrow> payoff_on_path p path
      | _ \<Rightarrow> Some (payoff_at p S))"

text \<open>\<open>sum += payoff\<close>, where either side may be NaN (\<open>None\<close>).\<close>

fun accumulate :: "real option \<Rightarrow> real option \<Rightarrow> real option" where
  "accumulate (Some a) (Some v) = Some (a + v)"
| "accumulate _ _ = None"

text \<open>The loop over the simulations, from simulation \<open>i\<close> on.\<close>

function path_loop ::
  "'g MCSolver \<Rightarrow> real \<Rightarrow> int \<Rightarrow> real option \<Rightarrow> 'g \<Rightarrow> error + (real option \<times> 'g)"
where
  "path_loop s dt i payoff_sum g =
     (if i < M s then
        (case simulate_path s dt g of
           Inl e \<Rightarrow> Inl e
         | Inr (S, path, g') \<Rightarrow>
             path_loop s dt (i + 1) (accumulate payoff_sum (evaluate_payoff (payoff s) S path)) g')
      else Inr (payoff_sum, g))"
  by pat_completeness auto
termination
  by (relation "measure (\<lambda>(s, dt, i, payoff_sum, g). nat (M s - i))") auto

declare path_loop.simps [simp del]

text \<open>
  \<open>MCSolver::solve\<close>. It returns the price and leaves the random source of the solver in
  its new state; a sum that is not a number gives \<open>Undefined\<close>.
\<close>

definition solve :: "'g MCSolver \<Rightarrow> error + (real \<times> 'g MCSolver)" where
  "solve s =
     (let dt = T s / of_int (N s) in
      if dt \<le> 0 then Inl InvalidConfiguration
      else
        (case path_loop s dt 0 (Some 0) (generator (rng s)) of
           Inl e \<Rightarrow> Inl e
         | Inr (None, g') \<Rightarrow> Inl Undefined
         | Inr (Some payoff_sum, g') \<Rightarrow>
             Inr (payoff_sum / of_int (M s), s\<lparr>rng := (rng s)\<lparr>generator := g'\<rparr>\<rparr>)))"

section \<open>Vocabulary of the properties\<close>

text \<open>
  The first \<open>n\<close> values that \<open>generate()\<close> returns, starting from the state \<open>g\<close> of the
  random source.
\<close>

fun draws :: "('g \<Rightarrow> real \<times> 'g) \<Rightarrow> 'g \<Rightarrow> nat \<Rightarrow> real list" where
  "draws gen g 0 = []"
| "draws gen g (Suc n) = (case gen g of (z, g') \<Rightarrow> z # draws gen g' n)"

text \<open>
  The state that \<open>advance\<close> returns at step \<open>j\<close> of a path of \<open>solve\<close>, when the price is
  \<open>S\<close> and the random source is in state \<open>g\<close>: the body of the loop over the time steps
  up to the test \<open>S < 0\<close>.
\<close>

definition next_state :: "'g MCSolver \<Rightarrow> int \<Rightarrow> real \<Rightarrow> 'g \<Rightarrow> error + real" where
  "next_state s j S g =
     (let dt = T s / of_int (N s)
      in advance (fdm s) S (of_int j * dt) dt (sqrt dt * fst (generate (rng s) g)))"

text \<open>
  The loop states \<open>(i, j, S, g)\<close> that a run of \<open>solve\<close> passes through: simulation \<open>i\<close>,
  before step \<open>j\<close>, with price \<open>S\<close> and the random source in state \<open>g\<close>. A run starts at
  \<open>(0, 0, S0, g\<^sub>0)\<close>; a step whose new price is not negative leads to the next step; after
  the last step the next simulation starts from \<open>S0\<close> with the random source as it is.
\<close>

inductive visited :: "'g MCSolver \<Rightarrow> int \<times> int \<times> real \<times> 'g \<Rightarrow> bool" for s where
  start: "visited s (0, 0, S0 s, generator (rng s))"
| step: "visited s (i, j, S, g) \<Longrightarrow> i < M s \<Longrightarrow> j < N s \<Longrightarrow>
         next_state s j S g = Inr S' \<Longrightarrow> \<not> S' < 0 \<Longrightarrow>
         visited s (i, j + 1, S', snd (generate (rng s) g))"
| next_path: "visited s (i, j, S, g) \<Longrightarrow> i < M s \<Longrightarrow> \<not> j < N s \<Longrightarrow>
         visited s (i + 1, 0, S0 s, g)"

code_pred visited .

text \<open>
  A run goes negative when, at a step of a simulation that it passes through, \<open>advance\<close>
  returns a state below zero.
\<close>

definition goes_negative :: "'g MCSolver \<Rightarrow> bool" where
  "goes_negative s \<longleftrightarrow>
     (\<exists>i j S g S'. visited s (i, j, S, g) \<and> i < M s \<and> j < N s \<and>
        next_state s j S g = Inr S' \<and> S' < 0)"

text \<open>
  The factor by which one step of a scheme multiplies the price under a \<open>GBM\<close> model
  without volatility, as a function of \<open>x = mu * dt\<close>.
\<close>

fun zero_volatility_growth :: "FDM \<Rightarrow> real \<Rightarrow> real" where
  "zero_volatility_growth (EulerMethod model) x = 1 + x"
| "zero_volatility_growth (MilsteinMethod model) x = 1 + x"
| "zero_volatility_growth (DriftAdjustedPredictorCorrector model) x = 1 + x + x\<^sup>2 / 2"

text \<open>
  Small configurations for concrete evaluation: initial price 1, maturity equal to the
  number of steps (so that \<open>dt = 1\<close>), and a random source that replays the draws \<open>zs\<close>.
\<close>

definition example_config :: "FDM \<Rightarrow> Payoff \<Rightarrow> int \<Rightarrow> int \<Rightarrow> real list \<Rightarrow> real list config" where
  "example_config scheme p n m zs =
     (Some (GBM 0 1), Some scheme, Some \<lparr>generate = replay, generator = zs\<rparr>, Some p,
      1, of_int n, n, m)"

definition example_solver :: "FDM \<Rightarrow> Payoff \<Rightarrow> int \<Rightarrow> int \<Rightarrow> real list \<Rightarrow> real list MCSolver" where
  "example_solver scheme p n m zs =
     \<lparr>sde = GBM 0 1, fdm = scheme, rng = \<lparr>generate = replay, generator = zs\<rparr>, payoff = p,
      S0 = 1, T = of_int n, N = n, M = m\<rparr>"

section \<open>The discretisation schemes\<close>

text \<open>
  C7: every scheme fails with \<open>InvalidStepSize\<close> when the step size of the call is not
  positive, at each call, and returns a next state when the step size is positive.
\<close>

theorem advance_InvalidStepSize:
  "(dt \<le> 0 \<longrightarrow> advance scheme S t dt dW = Inl InvalidStepSize) \<and>
   (0 < dt \<longrightarrow> (\<exists>S'. advance scheme S t dt dW = Inr S'))"
  by (cases scheme) (simp_all add: Let_def)

theorem advance_InvalidStepSize_witness:
  "advance (EulerMethod (GBM 1 1)) 1 0 0 1 = Inl InvalidStepSize \<and>
   advance (MilsteinMethod (GBM 1 1)) 1 0 (- 1) 1 = Inl InvalidStepSize \<and>
   (\<exists>S'. advance (DriftAdjustedPredictorCorrector (GBM 1 1)) 1 0 1 1 = Inr S')"
  using advance_InvalidStepSize [of 0 "EulerMethod (GBM 1 1)" 1 0 1]
    advance_InvalidStepSize [of "- 1" "MilsteinMethod (GBM 1 1)" 1 0 1]
    advance_InvalidStepSize [of 1 "DriftAdjustedPredictorCorrector (GBM 1 1)" 1 0 1]
  by simp

text \<open>
  C3: with a positive step size, the predictor-corrector scheme returns
  \<open>S + 0.5 * (drift(S, t) + drift(S_pred, t + dt)) * dt + diffusion(S, t) * dW\<close> for the
  Euler predictor \<open>S_pred = S + drift(S, t) * dt + diffusion(S, t) * dW\<close>; the diffusion is
  the one at \<open>(S, t)\<close>, not the one at the predicted or the corrected state.
\<close>

theorem DriftAdjustedPredictorCorrector_advance:
  assumes "0 < dt"
  shows "advance (DriftAdjustedPredictorCorrector model) S t dt dW =
           Inr (S + 0.5 * (drift model S t
                          + drift model (S + drift model S t * dt + diffusion model S t * dW)
                              (t + dt)) * dt
                  + diffusion model S t * dW)"
  using assms by (simp add: Let_def)

text \<open>
  At \<open>S = 1\<close> with \<open>GBM 1 1\<close> the predicted state is 3, where the diffusion is 3; the
  corrected state 4 contains the diffusion 1 of the state 1.
\<close>

theorem DriftAdjustedPredictorCorrector_advance_witness:
  "(0::real) < 1 \<and> advance (DriftAdjustedPredictorCorrector (GBM 1 1)) 1 0 1 1 = Inr 4"
  using DriftAdjustedPredictorCorrector_advance [of 1 "GBM 1 1" 1 0 1]
  by (simp add: GBM_def)

subsection \<open>Rounded arithmetic\<close>

lemma round_to_even_eqI:
  assumes "\<bar>x - of_int m\<bar> < 1 / 2"
  shows "round_to_even x = m"
proof (cases "of_int m \<le> x")
  case True
  with assms have "\<lfloor>x\<rfloor> = m" by (intro floor_unique) linarith+
  with assms True show ?thesis by (simp add: round_to_even_def Let_def)
next
  case False
  with assms have "of_int (m - 1) \<le> x" "x < of_int (m - 1) + 1" by simp_all
  then have f: "\<lfloor>x\<rfloor> = m - 1" by (rule floor_unique)
  from assms False have "1 / 2 < x - of_int (m - 1)" by simp
  with f show ?thesis by (simp add: round_to_even_def Let_def)
qed

lemma binary64_eqI:
  assumes y: "y = of_int m * 2 powr of_int e"
    and lower: "2 ^ 52 * 2 powr of_int e \<le> \<bar>x\<bar>"
    and upper: "\<bar>x\<bar> < 2 ^ 53 * 2 powr of_int e"
    and near: "\<bar>x - y\<bar> * 2 < 2 powr of_int e"
  shows "binary64 x = y"
proof -
  have pos: "0 < (2::real) powr of_int e" by simp
  from lower pos have x: "x \<noteq> 0" "0 < \<bar>x\<bar>"
    by (auto simp: not_le dest: mult_pos_pos [of "2 ^ 52"])
  have "(2::real) powr of_int (e + 52) = 2 ^ 52 * 2 powr of_int e"
    by (simp add: powr_add)
  moreover have "(2::real) powr (of_int (e + 52) + 1) = 2 ^ 53 * 2 powr of_int e"
    by (simp add: powr_add)
  ultimately have "\<lfloor>log 2 \<bar>x\<bar>\<rfloor> = e + 52"
    using lower upper x(2) by (subst floor_log_eq_powr_iff) simp_all
  then have e: "\<lfloor>log 2 \<bar>x\<bar>\<rfloor> - 52 = e" by simp
  have "\<bar>x / 2 powr of_int e - of_int m\<bar> = \<bar>x - y\<bar> / 2 powr of_int e"
    using pos by (simp add: y field_simps abs_divide)
  also have "\<dots> < 1 / 2"
    using near pos by (simp add: field_simps)
  finally have "round_to_even (x / 2 powr of_int e) = m"
    by (rule round_to_even_eqI)
  with x(1) e y show ?thesis by (simp add: binary64_def Let_def)
qed


lemma binary64_zero: "binary64 0 = 0"
  by (simp add: binary64_def)

lemma advance_rnd_exact: "advance_rnd (\<lambda>x. x) scheme S t dt dW = advance scheme S t dt dW"
  by (cases scheme) (simp_all add: Let_def)

text \<open>
  C4: with a positive step size, the Milstein scheme returns
  \<open>S + drift(S, t) * dt + diffusion(S, t) * dW + 0.5 * diffusion(S, t) * diffDeriv * (dW * dW - dt)\<close>
  where \<open>diffDeriv\<close> is the forward difference quotient
  \<open>(diffusion(S + 1e-5, t) - diffusion(S, t)) / 1e-5\<close>, each operation being the operation of
  \<open>double\<close> arithmetic: the exact one followed by the rounding, whatever the rounding is.
\<close>

theorem MilsteinMethod_advance:
  assumes "0 < dt"
  shows "advance_rnd rnd (MilsteinMethod model) S t dt dW =
           (let diffDeriv =
                  rnd (rnd (diffusion model (rnd (S + rnd (1 / 100000))) t - diffusion model S t)
                       / rnd (1 / 100000))
            in Inr (rnd (rnd (rnd (S + rnd (drift model S t * dt)) + rnd (diffusion model S t * dW))
                         + rnd (rnd (rnd (rnd 0.5 * diffusion model S t) * diffDeriv)
                                * rnd (rnd (dW * dW) - dt)))))"
  using assms by (simp add: Let_def)

text \<open>
  In binary64, with \<open>GBM(1, 1)\<close> at \<open>S = 1\<close>, \<open>dt = 1\<close> and \<open>dW = 2\<close> the quotient is
  \<open>1.0000000000065512\<close> and the result \<open>5.500000000009827\<close> (in exact arithmetic 1 and
  \<open>11/2\<close>). With \<open>GBM(0, 1)\<close> at \<open>S = 2\<^sup>4\<^sup>0\<close> and \<open>dW = - 2\<close> the sum \<open>S + 1e-5\<close> rounds to
  \<open>S\<close>, the quotient is 0 and the result is \<open>- 2\<^sup>4\<^sup>0\<close> (in exact arithmetic 1 and \<open>2\<^sup>3\<^sup>9\<close>).
  The products \<open>mu * S\<close> and \<open>sigma * S\<close> of these two models are exact in binary64.
\<close>

theorem MilsteinMethod_advance_witness:
  "(0::real) < 1 \<and>
   advance_rnd binary64 (MilsteinMethod (GBM 1 1)) 1 0 1 2
     = Inr (774056185955687 / 140737488355328) \<and>
   advance_rnd binary64 (MilsteinMethod (GBM 0 1)) 1099511627776 0 1 (- 2)
     = Inr (- 1099511627776)"
proof -
  have r1: "binary64 (1 / 100000) = 5902958103587057 / 590295810358705651712"
    by (rule binary64_eqI [where m = 5902958103587057 and e = "- 69"]) (simp_all add: powr_neg_numeral)
  have r2: "binary64 (590301713316809238769 / 590295810358705651712) = 2251822331683385 / 2251799813685248"
    by (rule binary64_eqI [where m = 4503644663366770 and e = "- 52"]) (simp_all add: powr_neg_numeral)
  have r3: "binary64 (22517998137 / 2251799813685248) = 22517998137 / 2251799813685248"
    by (rule binary64_eqI [where m = 5902958103625728 and e = "- 69"]) (simp_all add: powr_neg_numeral)
  have r4: "binary64 (5902958103625728 / 5902958103587057) = 70368744178125 / 70368744177664"
    by (rule binary64_eqI [where m = 4503599627400000 and e = "- 52"]) (simp_all add: powr_neg_numeral)
  have r5: "binary64 1 = 1"
    by (rule binary64_eqI [where m = 4503599627370496 and e = "- 52"]) (simp_all add: powr_neg_numeral)
  have r6: "binary64 2 = 2"
    by (rule binary64_eqI [where m = 4503599627370496 and e = "- 51"]) (simp_all add: powr_neg_numeral)
  have r7: "binary64 4 = 4"
    by (rule binary64_eqI [where m = 4503599627370496 and e = "- 50"]) (simp_all add: powr_neg_numeral)
  have r8: "binary64 (1 / 2) = 1 / 2"
    by (rule binary64_eqI [where m = 4503599627370496 and e = "- 53"]) (simp_all add: powr_neg_numeral)
  have r9: "binary64 (70368744178125 / 140737488355328) = 70368744178125 / 140737488355328"
    by (rule binary64_eqI [where m = 4503599627400000 and e = "- 53"]) (simp_all add: powr_neg_numeral)
  have r10: "binary64 3 = 3"
    by (rule binary64_eqI [where m = 6755399441055744 and e = "- 51"]) (simp_all add: powr_neg_numeral)
  have r11: "binary64 (211106232534375 / 140737488355328) = 211106232534375 / 140737488355328"
    by (rule binary64_eqI [where m = 6755399441100000 and e = "- 52"]) (simp_all add: powr_neg_numeral)
  have r12: "binary64 (774056185955687 / 140737488355328) = 774056185955687 / 140737488355328"
    by (rule binary64_eqI [where m = 6192449487645496 and e = "- 50"]) (simp_all add: powr_neg_numeral)
  have r13: "binary64 (649037107316853459469270144739569 / 590295810358705651712) = 1099511627776"
    by (rule binary64_eqI [where m = 4503599627370496 and e = "- 12"]) (simp_all add: powr_neg_numeral)
  have r14: "binary64 1099511627776 = 1099511627776"
    by (rule binary64_eqI [where m = 4503599627370496 and e = "- 12"]) (simp_all add: powr_neg_numeral)
  have r15: "binary64 (- 2199023255552) = - 2199023255552"
    by (rule binary64_eqI [where m = "- 4503599627370496" and e = "- 11"]) (simp_all add: powr_neg_numeral)
  have r16: "binary64 (- 1099511627776) = - 1099511627776"
    by (rule binary64_eqI [where m = "- 4503599627370496" and e = "- 12"]) (simp_all add: powr_neg_numeral)
  have r17: "binary64 549755813888 = 549755813888"
    by (rule binary64_eqI [where m = 4503599627370496 and e = "- 13"]) (simp_all add: powr_neg_numeral)
  note rounded = r1 r2 r3 r4 r5 r6 r7 r8 r9 r10 r11 r12 r13 r14 r15 r16 r17
  from MilsteinMethod_advance [of 1 binary64 "GBM 1 1" 1 0 2]
    MilsteinMethod_advance [of 1 binary64 "GBM 0 1" 1099511627776 0 "- 2"]
  show ?thesis
    by (simp add: GBM_def Let_def rounded binary64_zero)
qed

lemma advance_error: "advance scheme S t dt dW = Inl e \<Longrightarrow> e = InvalidStepSize"
  by (cases scheme) (auto simp: Let_def split: if_splits)

lemma advance_zero_volatility:
  assumes "0 < dt"
    and "scheme \<in> {EulerMethod (GBM mu 0), MilsteinMethod (GBM mu 0),
                   DriftAdjustedPredictorCorrector (GBM mu 0)}"
  shows "advance scheme S t dt dW = Inr (zero_volatility_growth scheme (mu * dt) * S)"
  using assms by (auto simp: GBM_def Let_def algebra_simps power2_eq_square)

section \<open>The payoffs\<close>

lemma payoff_at_nonneg: "0 \<le> payoff_at p S"
  by (cases p) (simp_all add: Let_def)

lemma geometricAverage_nonneg: "geometricAverage path = Some a \<Longrightarrow> 0 \<le> a"
  by (auto simp: geometricAverage_def split: if_splits)

lemma payoff_on_path_nonneg: "payoff_on_path p path = Some v \<Longrightarrow> 0 \<le> v"
  by (cases p) (auto simp: Let_def split: if_splits option.splits)

lemma payoff_on_path_defined:
  "path \<noteq> [] \<Longrightarrow> \<forall>x \<in> set path. 0 \<le> x \<Longrightarrow> \<exists>v. payoff_on_path p path = Some v"
  by (cases p) (auto simp: geometricAverage_def)

lemma foldl_logSum: "foldl (\<lambda>logSum price. logSum + ln price) a path = a + sum_list (map ln path)"
  by (induction path arbitrary: a) simp_all

lemma geometricAverage_nonnegative_path:
  assumes "path \<noteq> []" and "\<forall>price \<in> set path. 0 \<le> price"
  shows "geometricAverage path =
           Some (if 0 \<in> set path then 0
                 else exp (sum_list (map ln path) / real (length path)))"
  using assms by (auto simp: geometricAverage_def foldl_logSum not_less)

lemma evaluate_payoff_nonneg: "evaluate_payoff p S path = Some v \<Longrightarrow> 0 \<le> v"
  by (cases p) (auto simp: evaluate_payoff_def Let_def split: if_splits option.splits)

lemma evaluate_payoff_defined:
  "path \<noteq> [] \<Longrightarrow> \<forall>x \<in> set path. 0 \<le> x \<Longrightarrow> \<exists>v. evaluate_payoff p S path = Some v"
  using payoff_on_path_defined [of path p]
  by (cases p) (simp_all add: evaluate_payoff_def)

text \<open>
  C5: on every path with a last price, the payoff of the knock-in barrier option and the
  payoff of the knock-out barrier option with the same strike, barrier, call/put flag and
  up/down flag add up to the payoff of the European option on that path, which is
  \<open>max(S - K, 0)\<close> for a call and \<open>max(K - S, 0)\<close> for a put at the last price \<open>S\<close>.
\<close>

theorem BarrierOption_in_out_parity:
  assumes "path \<noteq> []"
  shows "\<exists>inPayoff outPayoff.
           payoff_on_path (BarrierOption K B isCall isUp True) path = Some inPayoff \<and>
           payoff_on_path (BarrierOption K B isCall isUp False) path = Some outPayoff \<and>
           payoff_on_path (if isCall then EuropeanCall K else EuropeanPut K) path
             = Some (inPayoff + outPayoff) \<and>
           inPayoff + outPayoff
             = (if isCall then max (last path - K) 0 else max (K - last path) 0)"
  using assms by (simp add: Let_def)

theorem BarrierOption_in_out_parity_witness:
  "[90, 120, 110::real] \<noteq> [] \<and>
   payoff_on_path (BarrierOption 100 105 True True True) [90, 120, 110] = Some 10 \<and>
   payoff_on_path (BarrierOption 100 105 True True False) [90, 120, 110] = Some 0 \<and>
   payoff_on_path (EuropeanCall 100) [90, 120, 110] = Some 10"
  using BarrierOption_in_out_parity [of "[90, 120, 110]" 100 105 True True]
  by simp

text \<open>
  C9: on a non-empty path the barrier option pays what it pays at the last price of the
  path; the barrier is tested against that price only, so that replacing the prices before
  the last one by any other prices leaves the payoff as it is.
\<close>

theorem BarrierOption_path_is_terminal:
  assumes "path \<noteq> []"
  shows "payoff_on_path (BarrierOption K B isCall isUp isIn) path
           = Some (payoff_at (BarrierOption K B isCall isUp isIn) (last path)) \<and>
         payoff_on_path (BarrierOption K B isCall isUp isIn) (earlier @ [last path])
           = payoff_on_path (BarrierOption K B isCall isUp isIn) path"
  using assms by simp

text \<open>
  The path below crosses the barrier 105 at its second price and ends under it: the
  up-and-out call is not knocked out.
\<close>

theorem BarrierOption_path_is_terminal_witness:
  "[90, 120, 100::real] \<noteq> [] \<and>
   payoff_on_path (BarrierOption 95 105 True True False) [90, 120, 100] = Some 5 \<and>
   payoff_on_path (BarrierOption 95 105 True True False) [90, 100] = Some 5"
  using BarrierOption_path_is_terminal [of "[90, 120, 100]" 95 105 True True False "[90]"]
  by simp

section \<open>The solver\<close>

subsection \<open>Accepted configurations\<close>

lemma MCSolver_new_valid:
  assumes "MCSolver_new config = Inr s"
  shows "0 < S0 s \<and> 0 < T s \<and> 0 < N s \<and> 0 < M s"
  using assms by (auto simp: MCSolver_new_def split: prod.splits if_splits)

lemma example_valid:
  "0 < n \<Longrightarrow> 0 < m \<Longrightarrow>
   MCSolver_new (example_config scheme p n m zs) = Inr (example_solver scheme p n m zs)"
  by (simp add: MCSolver_new_def example_config_def example_solver_def)

lemmas example_simps =
  example_solver_def solve_def path_loop.simps simulate_path_def step_loop.simps
  evaluate_payoff_def geometricAverage_def GBM_def numeral_2_eq_2

subsection \<open>The path buffer\<close>

lemma step_loop_unfold:
  "j < N s \<Longrightarrow>
   step_loop s (T s / of_int (N s)) j S path g =
     (case next_state s j S g of
        Inl e \<Rightarrow> Inl e
      | Inr S' \<Rightarrow>
          if S' < 0 then Inl NegativeAssetPrice
          else step_loop s (T s / of_int (N s)) (j + 1) S' (path[nat (j + 1) := S'])
                 (snd (generate (rng s) g)))"
  by (cases "generate (rng s) g")
    (simp add: step_loop.simps [of s _ j] next_state_def Let_def split: sum.splits)

lemma step_loop_buffer:
  "step_loop s dt j S path g = Inr (S', path', g') \<Longrightarrow> 0 \<le> j \<Longrightarrow> j \<le> N s \<Longrightarrow>
   length path = nat (N s + 1) \<Longrightarrow> path ! nat j = S \<Longrightarrow>
   length path' = nat (N s + 1) \<and> path' ! nat (N s) = S' \<and>
   (\<forall>k \<le> nat j. path' ! k = path ! k)"
proof (induction s dt j S path g rule: step_loop.induct)
  case (1 s dt j S path g)
  show ?case
  proof (cases "j < N s")
    case False
    with "1.prems" show ?thesis by (simp add: step_loop.simps)
  next
    case True
    obtain z g1 where gen: "generate (rng s) g = (z, g1)" by (cases "generate (rng s) g")
    from True gen "1.prems"(1) obtain S1 where
      adv: "advance (fdm s) S (of_int j * dt) dt (sqrt dt * z) = Inr S1" and
      nonneg: "\<not> S1 < 0" and
      rest: "step_loop s dt (j + 1) S1 (path[nat (j + 1) := S1]) g1 = Inr (S', path', g')"
      by (subst (asm) step_loop.simps) (auto simp: Let_def split: sum.splits if_splits)
    have len: "length (path[nat (j + 1) := S1]) = nat (N s + 1)"
      using "1.prems"(4) by simp
    have cur: "path[nat (j + 1) := S1] ! nat (j + 1) = S1"
      using "1.prems"(2,4) True by simp
    from "1.IH" [OF True gen [symmetric] refl adv nonneg rest _ _ len cur] "1.prems"(2) True
    have ih: "length path' = nat (N s + 1)" "path' ! nat (N s) = S'"
      "\<forall>k \<le> nat (j + 1). path' ! k = path[nat (j + 1) := S1] ! k"
      by auto
    have "path' ! k = path ! k" if "k \<le> nat j" for k
    proof -
      from that "1.prems"(2) have "k \<le> nat (j + 1)" "k \<noteq> nat (j + 1)" by linarith+
      with ih(3) show ?thesis by simp
    qed
    with ih show ?thesis by simp
  qed
qed

lemma simulate_path_buffer:
  assumes "simulate_path s dt g = Inr (S, path, g')" and "0 < N s"
  shows "length path = nat (N s) + 1 \<and> path ! nat (N s) = S \<and> path ! 0 = S0 s"
proof -
  let ?p = "(replicate (nat (N s + 1)) 0)[0 := S0 s]"
  have "length ?p = nat (N s + 1)" by simp
  moreover have "?p ! nat 0 = S0 s" using assms(2) by simp
  ultimately have "length path = nat (N s + 1) \<and> path ! nat (N s) = S \<and>
      (\<forall>k \<le> nat 0. path ! k = ?p ! k)"
    using step_loop_buffer [of s dt 0 "S0 s" ?p g S path g'] assms
    by (simp add: simulate_path_def)
  with assms(2) show ?thesis by (simp add: nat_add_distrib)
qed

lemma step_loop_nonneg_path:
  "step_loop s dt j S path g = Inr (S', path', g') \<Longrightarrow> \<forall>x \<in> set path. 0 \<le> x \<Longrightarrow>
   \<forall>x \<in> set path'. 0 \<le> x"
proof (induction s dt j S path g rule: step_loop.induct)
  case (1 s dt j S path g)
  show ?case
  proof (cases "j < N s")
    case False
    with "1.prems" show ?thesis by (simp add: step_loop.simps)
  next
    case True
    obtain z g1 where gen: "generate (rng s) g = (z, g1)" by (cases "generate (rng s) g")
    from True gen "1.prems"(1) obtain S1 where
      adv: "advance (fdm s) S (of_int j * dt) dt (sqrt dt * z) = Inr S1" and
      nonneg: "\<not> S1 < 0" and
      rest: "step_loop s dt (j + 1) S1 (path[nat (j + 1) := S1]) g1 = Inr (S', path', g')"
      by (subst (asm) step_loop.simps) (auto simp: Let_def split: sum.splits if_splits)
    have "set (path[nat (j + 1) := S1]) \<subseteq> insert S1 (set path)"
      by (rule set_update_subset_insert)
    with "1.prems"(2) nonneg have "\<forall>x \<in> set (path[nat (j + 1) := S1]). 0 \<le> x"
      by (auto simp: not_less)
    from "1.IH" [OF True gen [symmetric] refl adv nonneg rest this]
    show ?thesis .
  qed
qed

lemma step_loop_error:
  "step_loop s dt j S path g = Inl e \<Longrightarrow> e = InvalidStepSize \<or> e = NegativeAssetPrice"
proof (induction s dt j S path g rule: step_loop.induct)
  case (1 s dt j S path g)
  show ?case
  proof (cases "j < N s")
    case False
    with "1.prems" show ?thesis by (simp add: step_loop.simps)
  next
    case True
    obtain z g1 where gen: "generate (rng s) g = (z, g1)" by (cases "generate (rng s) g")
    show ?thesis
    proof (cases "advance (fdm s) S (of_int j * dt) dt (sqrt dt * z)")
      case (Inl e')
      with True gen "1.prems" have "e = e'"
        by (simp add: step_loop.simps [of s dt j])
      with Inl show ?thesis by (auto dest: advance_error)
    next
      case (Inr S1)
      show ?thesis
      proof (cases "S1 < 0")
        case neg: True
        with True gen Inr "1.prems" show ?thesis
          by (simp add: step_loop.simps [of s dt j])
      next
        case nonneg: False
        with True gen Inr "1.prems"
        have "step_loop s dt (j + 1) S1 (path[nat (j + 1) := S1]) g1 = Inl e"
          by (simp add: step_loop.simps [of s dt j])
        from "1.IH" [OF True gen [symmetric] refl Inr nonneg this]
        show ?thesis .
      qed
    qed
  qed
qed

lemma simulate_path_payoff_defined:
  assumes "simulate_path s dt g = Inr (S, path, g')" and "0 < S0 s" and "0 < N s"
  shows "\<exists>v. evaluate_payoff p S path = Some v"
proof -
  let ?p = "(replicate (nat (N s + 1)) 0)[0 := S0 s]"
  have "set ?p \<subseteq> insert (S0 s) (set (replicate (nat (N s + 1)) 0))"
    by (rule set_update_subset_insert)
  with assms(2) have "\<forall>x \<in> set ?p. 0 \<le> x" by auto
  with assms(1) have "\<forall>x \<in> set path. 0 \<le> x"
    using step_loop_nonneg_path [of s dt 0 "S0 s" ?p g S path g']
    by (simp add: simulate_path_def)
  moreover from simulate_path_buffer [OF assms(1,3)] have "path \<noteq> []" by auto
  ultimately show ?thesis by (simp add: evaluate_payoff_defined)
qed

lemma step_loop_path:
  "step_loop s dt j S path g = Inr (S', path', g') \<Longrightarrow> 0 \<le> j \<Longrightarrow> j \<le> N s \<Longrightarrow>
   length path = nat (N s + 1) \<Longrightarrow> path ! nat j = S \<Longrightarrow>
   (\<forall>k. nat j \<le> k \<and> k < nat (N s) \<longrightarrow>
      advance (fdm s) (path' ! k) (of_nat k * dt) dt
        (sqrt dt * (draws (generate (rng s)) g (nat (N s - j)) ! (k - nat j)))
        = Inr (path' ! Suc k) \<and> 0 \<le> path' ! Suc k) \<and>
   g' = ((\<lambda>g. snd (generate (rng s) g)) ^^ nat (N s - j)) g"
proof (induction s dt j S path g rule: step_loop.induct)
  case (1 s dt j S path g)
  note run = "1.prems"(1) and j = "1.prems"(2,3) and len = "1.prems"(4) and cur = "1.prems"(5)
  show ?case
  proof (cases "j < N s")
    case False
    with j have last: "j = N s" by simp
    from run False have "g' = g" by (simp add: step_loop.simps)
    with last show ?thesis by auto
  next
    case True
    obtain z g1 where gen: "generate (rng s) g = (z, g1)" by (cases "generate (rng s) g")
    from True gen run obtain S1 where
      adv: "advance (fdm s) S (of_int j * dt) dt (sqrt dt * z) = Inr S1" and
      nonneg: "\<not> S1 < 0" and
      rest: "step_loop s dt (j + 1) S1 (path[nat (j + 1) := S1]) g1 = Inr (S', path', g')"
      by (subst (asm) step_loop.simps) (auto simp: Let_def split: sum.splits if_splits)
    let ?p1 = "path[nat (j + 1) := S1]"
    have len1: "length ?p1 = nat (N s + 1)" using len by simp
    have cur1: "?p1 ! nat (j + 1) = S1" using j len True by simp
    from True j have j1: "0 \<le> j + 1" "j + 1 \<le> N s" by simp_all
    from step_loop_buffer [OF rest j1 len1 cur1]
    have pre: "\<forall>k \<le> nat (j + 1). path' ! k = ?p1 ! k" by simp
    from "1.IH" [OF True gen [symmetric] refl adv nonneg rest j1 len1 cur1]
    have ih: "\<forall>k. nat (j + 1) \<le> k \<and> k < nat (N s) \<longrightarrow>
        advance (fdm s) (path' ! k) (of_nat k * dt) dt
          (sqrt dt * (draws (generate (rng s)) g1 (nat (N s - (j + 1))) ! (k - nat (j + 1))))
          = Inr (path' ! Suc k) \<and> 0 \<le> path' ! Suc k"
      and src: "g' = ((\<lambda>g. snd (generate (rng s) g)) ^^ nat (N s - (j + 1))) g1"
      by simp_all
    from True j have count: "nat (N s - j) = Suc (nat (N s - (j + 1)))" by linarith
    have stream: "draws (generate (rng s)) g (nat (N s - j))
                    = z # draws (generate (rng s)) g1 (nat (N s - (j + 1)))"
      by (subst count) (simp add: gen)
    have source: "((\<lambda>g. snd (generate (rng s) g)) ^^ nat (N s - j)) g
                    = ((\<lambda>g. snd (generate (rng s) g)) ^^ nat (N s - (j + 1))) g1"
      by (subst count) (simp add: gen funpow_Suc_right del: funpow.simps)
    have at_j: "path' ! nat j = S"
    proof -
      from j have "nat j \<le> nat (j + 1)" "nat j \<noteq> nat (j + 1)" by linarith+
      with pre cur show ?thesis by simp
    qed
    have at_j1: "path' ! Suc (nat j) = S1"
    proof -
      from j have "Suc (nat j) = nat (j + 1)" by linarith
      with pre cur1 show ?thesis by simp
    qed
    have step: "advance (fdm s) (path' ! k) (of_nat k * dt) dt
          (sqrt dt * (draws (generate (rng s)) g (nat (N s - j)) ! (k - nat j)))
          = Inr (path' ! Suc k) \<and> 0 \<le> path' ! Suc k"
      if k: "nat j \<le> k" "k < nat (N s)" for k
    proof (cases "k = nat j")
      case True
      from j have time: "real_of_int j = of_nat (nat j)" by simp
      from adv nonneg at_j at_j1 show ?thesis
        unfolding stream True time by (simp add: not_less)
    next
      case False
      with k j have lt: "nat (j + 1) \<le> k" by linarith
      with j have idx: "k - nat j = Suc (k - nat (j + 1))" by linarith
      have "(z # draws (generate (rng s)) g1 (nat (N s - (j + 1)))) ! (k - nat j)
              = draws (generate (rng s)) g1 (nat (N s - (j + 1))) ! (k - nat (j + 1))"
        by (simp only: idx nth_Cons_Suc)
      moreover from ih lt k(2) have
        "advance (fdm s) (path' ! k) (of_nat k * dt) dt
           (sqrt dt * (draws (generate (rng s)) g1 (nat (N s - (j + 1))) ! (k - nat (j + 1))))
           = Inr (path' ! Suc k) \<and> 0 \<le> path' ! Suc k"
        by blast
      ultimately show ?thesis
        unfolding stream by (simp only:)
    qed
    have "g' = ((\<lambda>g. snd (generate (rng s) g)) ^^ nat (N s - j)) g"
      unfolding source by (rule src)
    with step show ?thesis by blast
  qed
qed

lemma simulate_path_path:
  assumes "simulate_path s dt g = Inr (S, path, g')" and "0 < N s"
  shows "(\<forall>j < nat (N s).
            advance (fdm s) (path ! j) (of_nat j * dt) dt
              (sqrt dt * (draws (generate (rng s)) g (nat (N s)) ! j))
              = Inr (path ! Suc j) \<and> 0 \<le> path ! Suc j) \<and>
         g' = ((\<lambda>g. snd (generate (rng s) g)) ^^ nat (N s)) g"
proof -
  let ?p = "(replicate (nat (N s + 1)) 0)[0 := S0 s]"
  have "length ?p = nat (N s + 1)" by simp
  moreover have "?p ! nat 0 = S0 s" using assms(2) by simp
  ultimately show ?thesis
    using step_loop_path [of s dt 0 "S0 s" ?p g S path g'] assms
    by (simp add: simulate_path_def)
qed


lemma simulate_path_nonneg:
  assumes "simulate_path s dt g = Inr (S, path, g')" and "0 < S0 s"
  shows "\<forall>price \<in> set path. 0 \<le> price"
proof -
  let ?p = "(replicate (nat (N s + 1)) 0)[0 := S0 s]"
  have "set ?p \<subseteq> insert (S0 s) (set (replicate (nat (N s + 1)) 0))"
    by (rule set_update_subset_insert)
  with assms(2) have "\<forall>x \<in> set ?p. 0 \<le> x" by auto
  with assms(1) show ?thesis
    using step_loop_nonneg_path [of s dt 0 "S0 s" ?p g S path g']
    by (simp add: simulate_path_def)
qed

lemma ln_four: "ln (4::real) = 2 * ln 2"
proof -
  have "ln (4::real) = ln (2 * 2)" by simp
  also have "\<dots> = ln 2 + ln 2" by (rule ln_mult_pos) simp_all
  finally show ?thesis by simp
qed

text \<open>
  C1: in a solver that the constructor has accepted, the buffer of a simulated path holds
  the \<open>N + 1\<close> points of the path: \<open>S0\<close> first, and after each point the state that \<open>advance\<close>
  returns from it with the next draw of the random source, the last point being the final
  state; the random source has then made \<open>N\<close> draws. The payoff that the loop over the simulations adds to the sum is, for an
  \<open>AsianOption\<close>, the payoff on the geometric average of these \<open>N + 1\<close> points (the
  exponential of the mean of their logarithms, and 0 when a point is 0), and for every
  other payoff the payoff at the last point \<open>path[N]\<close> alone.
\<close>

theorem solve_payoff_dispatch:
  assumes "MCSolver_new config = Inr s"
    and "simulate_path s dt g = Inr (S, path, g')"
  shows "let terminal = path ! nat (N s);
             v = (case payoff s of
                    AsianOption K isCall \<Rightarrow>
                      (let average =
                             (if 0 \<in> set path then 0
                              else exp (sum_list (map ln path) / real (nat (N s) + 1)))
                       in if isCall then max (average - K) 0 else max (K - average) 0)
                  | EuropeanCall K \<Rightarrow> max (terminal - K) 0
                  | EuropeanPut K \<Rightarrow> max (K - terminal) 0
                  | BarrierOption K B isCall isUp isIn \<Rightarrow>
                      (if (if isUp then B \<le> terminal else terminal \<le> B) = isIn
                       then (if isCall then max (terminal - K) 0 else max (K - terminal) 0)
                       else 0))
         in length path = nat (N s) + 1 \<and>
            path ! 0 = S0 s \<and>
            (\<forall>j < nat (N s).
               advance (fdm s) (path ! j) (of_nat j * dt) dt
                 (sqrt dt * (draws (generate (rng s)) g (nat (N s)) ! j))
                 = Inr (path ! Suc j) \<and> 0 \<le> path ! Suc j) \<and>
            S = terminal \<and>
            g' = ((\<lambda>g. snd (generate (rng s) g)) ^^ nat (N s)) g \<and>
            evaluate_payoff (payoff s) S path = Some v \<and>
            (i < M s \<longrightarrow>
               path_loop s dt i payoff_sum g
                 = path_loop s dt (i + 1) (accumulate payoff_sum (Some v)) g')"
proof -
  from assms(1) have valid: "0 < S0 s" "0 < N s" by (simp_all add: MCSolver_new_valid)
  from simulate_path_buffer [OF assms(2) valid(2)]
  have buf: "length path = nat (N s) + 1" "path ! nat (N s) = S" "path ! 0 = S0 s"
    by simp_all
  from simulate_path_path [OF assms(2) valid(2)]
  have steps: "\<forall>j < nat (N s).
      advance (fdm s) (path ! j) (of_nat j * dt) dt
        (sqrt dt * (draws (generate (rng s)) g (nat (N s)) ! j))
        = Inr (path ! Suc j) \<and> 0 \<le> path ! Suc j"
    and source: "g' = ((\<lambda>g. snd (generate (rng s) g)) ^^ nat (N s)) g"
    by blast+
  from buf(1) have nonempty: "path \<noteq> []" by auto
  from simulate_path_nonneg [OF assms(2) valid(1)]
  have average: "geometricAverage path =
      Some (if 0 \<in> set path then 0
            else exp (sum_list (map ln path) / real (nat (N s) + 1)))"
    using geometricAverage_nonnegative_path [OF nonempty] buf(1) by simp
  let ?terminal = "path ! nat (N s)"
  let ?v = "case payoff s of
              AsianOption K isCall \<Rightarrow>
                (let average =
                       (if 0 \<in> set path then 0
                        else exp (sum_list (map ln path) / real (nat (N s) + 1)))
                 in if isCall then max (average - K) 0 else max (K - average) 0)
            | EuropeanCall K \<Rightarrow> max (?terminal - K) 0
            | EuropeanPut K \<Rightarrow> max (K - ?terminal) 0
            | BarrierOption K B isCall isUp isIn \<Rightarrow>
                (if (if isUp then B \<le> ?terminal else ?terminal \<le> B) = isIn
                 then (if isCall then max (?terminal - K) 0 else max (K - ?terminal) 0)
                 else 0)"
  have ev: "evaluate_payoff (payoff s) S path = Some ?v"
  proof (cases "payoff s")
    case (AsianOption K isCall)
    with average show ?thesis by (simp add: evaluate_payoff_def Let_def)
  qed (auto simp: evaluate_payoff_def Let_def buf(2))
  have loop: "i < M s \<longrightarrow>
      path_loop s dt i payoff_sum g
        = path_loop s dt (i + 1) (accumulate payoff_sum (Some ?v)) g'"
    using assms(2) ev by (subst path_loop.simps) simp
  from buf(1) buf(3) steps buf(2) [symmetric] source ev loop show ?thesis
    unfolding Let_def by blast
qed

text \<open>
  A path of two steps, \<open>1, 2, 4\<close>, with the geometric average 2: the Asian call with strike
  1 pays 1 (at the last point alone a call would pay 3).
\<close>

theorem solve_payoff_dispatch_witness:
  "MCSolver_new (example_config (EulerMethod (GBM 0 1)) (AsianOption 1 True) 2 2 [1, 1, 3])
     = Inr (example_solver (EulerMethod (GBM 0 1)) (AsianOption 1 True) 2 2 [1, 1, 3]) \<and>
   simulate_path (example_solver (EulerMethod (GBM 0 1)) (AsianOption 1 True) 2 2 [1, 1, 3])
     1 [1, 1, 3] = Inr (4, [1, 2, 4], [3]) \<and>
   advance (EulerMethod (GBM 0 1)) 1 (of_nat 0 * 1) 1 (sqrt 1 * 1) = Inr 2 \<and>
   advance (EulerMethod (GBM 0 1)) 2 (of_nat 1 * 1) 1 (sqrt 1 * 1) = Inr 4 \<and>
   evaluate_payoff (AsianOption 1 True) 4 [1, 2, 4] = Some 1 \<and>
   path_loop (example_solver (EulerMethod (GBM 0 1)) (AsianOption 1 True) 2 2 [1, 1, 3])
     1 0 (Some 0) [1, 1, 3]
     = path_loop (example_solver (EulerMethod (GBM 0 1)) (AsianOption 1 True) 2 2 [1, 1, 3])
         1 1 (Some 1) [3]"
proof -
  let ?s = "example_solver (EulerMethod (GBM 0 1)) (AsianOption 1 True) 2 2 [1, 1, 3]"
  have valid: "MCSolver_new (example_config (EulerMethod (GBM 0 1)) (AsianOption 1 True)
      2 2 [1, 1, 3]) = Inr ?s"
    by (simp add: example_valid)
  have sim: "simulate_path ?s 1 [1, 1, 3] = Inr (4, [1, 2, 4], [3])"
    by (simp add: example_simps numeral_3_eq_3)
  have fields: "N ?s = 2" "M ?s = 2" "S0 ?s = 1" "payoff ?s = AsianOption 1 True"
    "fdm ?s = EulerMethod (GBM 0 1)" "generate (rng ?s) = replay"
    by (simp_all add: example_solver_def)
  have stream: "draws replay [1, 1, 3] (nat 2) = [1, 1]"
    by (simp add: numeral_2_eq_2)
  have average: "exp ((ln 2 + ln 4) / 3) = (2::real)"
    by (simp add: ln_four)
  from solve_payoff_dispatch [OF valid sim, where i = 0 and payoff_sum = "Some 0"]
  have "advance (EulerMethod (GBM 0 1)) ([1, 2, 4] ! 0) (of_nat 0 * 1) 1
            (sqrt 1 * ([1, 1] ! 0)) = Inr ([1, 2, 4] ! Suc 0) \<and>
        advance (EulerMethod (GBM 0 1)) ([1, 2, 4] ! 1) (of_nat 1 * 1) 1
            (sqrt 1 * ([1, 1] ! 1)) = Inr ([1, 2, 4] ! Suc 1) \<and>
        evaluate_payoff (AsianOption 1 True) 4 [1, 2, 4] = Some 1 \<and>
        path_loop ?s 1 0 (Some 0) [1, 1, 3] = path_loop ?s 1 1 (Some 1) [3]"
    unfolding fields stream Let_def
    by (simp add: average GBM_def numeral_2_eq_2 All_less_Suc)
  with valid sim show ?thesis by simp
qed

subsection \<open>Zero volatility\<close>

lemma step_loop_geometric:
  "\<forall>S t dW. advance (fdm s) S t dt dW = Inr (c * S) \<Longrightarrow> 0 \<le> c \<Longrightarrow> 0 \<le> S \<Longrightarrow>
   0 \<le> j \<Longrightarrow> j \<le> N s \<Longrightarrow> length path = nat (N s + 1) \<Longrightarrow>
   \<exists>path'. step_loop s dt j S path g =
       Inr (c ^ nat (N s - j) * S, path',
            ((\<lambda>g. snd (generate (rng s) g)) ^^ nat (N s - j)) g) \<and>
     length path' = nat (N s + 1) \<and>
     (\<forall>k \<le> nat j. path' ! k = path ! k) \<and>
     (\<forall>k. nat j < k \<and> k \<le> nat (N s) \<longrightarrow> path' ! k = c ^ (k - nat j) * S)"
proof (induction s dt j S path g rule: step_loop.induct)
  case (1 s dt j S path g)
  note adv = "1.prems"(1) and c = "1.prems"(2) and S = "1.prems"(3)
    and j = "1.prems"(4,5) and len = "1.prems"(6)
  show ?case
  proof (cases "j < N s")
    case False
    with j have "j = N s" by simp
    with len show ?thesis by (simp add: step_loop.simps)
  next
    case True
    obtain z g1 where gen: "generate (rng s) g = (z, g1)" by (cases "generate (rng s) g")
    let ?S1 = "c * S"
    let ?p1 = "path[nat (j + 1) := ?S1]"
    have adv1: "advance (fdm s) S (of_int j * dt) dt (sqrt dt * z) = Inr ?S1"
      using adv by simp
    have nonneg: "\<not> ?S1 < 0" using c S by (simp add: not_less)
    have unfold: "step_loop s dt j S path g = step_loop s dt (j + 1) ?S1 ?p1 g1"
      using True gen adv1 nonneg by (simp add: step_loop.simps [of s dt j])
    from "1.IH" [OF True gen [symmetric] refl adv1 nonneg adv c] c S j True len
    obtain path' where
      run: "step_loop s dt (j + 1) ?S1 ?p1 g1 =
              Inr (c ^ nat (N s - (j + 1)) * ?S1, path',
                   ((\<lambda>g. snd (generate (rng s) g)) ^^ nat (N s - (j + 1))) g1)"
      and len': "length path' = nat (N s + 1)"
      and pre: "\<forall>k \<le> nat (j + 1). path' ! k = ?p1 ! k"
      and post: "\<forall>k. nat (j + 1) < k \<and> k \<le> nat (N s) \<longrightarrow>
                  path' ! k = c ^ (k - nat (j + 1)) * ?S1"
      by (auto simp: not_less)
    from True j have exp: "nat (N s - j) = Suc (nat (N s - (j + 1)))" by linarith
    have final: "c ^ nat (N s - (j + 1)) * ?S1 = c ^ nat (N s - j) * S"
      by (simp add: exp)
    have source: "((\<lambda>g. snd (generate (rng s) g)) ^^ nat (N s - (j + 1))) g1
                    = ((\<lambda>g. snd (generate (rng s) g)) ^^ nat (N s - j)) g"
      using gen by (simp add: exp funpow_Suc_right del: funpow.simps)
    have pre': "path' ! k = path ! k" if "k \<le> nat j" for k
    proof -
      from that j have "k \<le> nat (j + 1)" "k \<noteq> nat (j + 1)" by linarith+
      with pre show ?thesis by simp
    qed
    have post': "path' ! k = c ^ (k - nat j) * S" if "nat j < k" "k \<le> nat (N s)" for k
    proof (cases "k = nat (j + 1)")
      case True
      with pre have "path' ! k = ?p1 ! nat (j + 1)" by simp
      also have "\<dots> = ?S1" using len j \<open>j < N s\<close> by simp
      also have "\<dots> = c ^ (k - nat j) * S" using True j by (simp add: nat_add_distrib)
      finally show ?thesis .
    next
      case False
      with that j have lt: "nat (j + 1) < k" by linarith
      with post that have "path' ! k = c ^ (k - nat (j + 1)) * ?S1" by simp
      moreover from lt j have "k - nat j = Suc (k - nat (j + 1))" by linarith
      ultimately show ?thesis by simp
    qed
    from run final source len' pre' post' show ?thesis
      unfolding unfold by auto
  qed
qed

lemma simulate_path_geometric:
  assumes adv: "\<forall>S t dW. advance (fdm s) S t dt dW = Inr (c * S)" and c: "0 \<le> c"
    and initial: "0 < S0 s" and steps: "0 < N s"
  shows "simulate_path s dt g =
           Inr (S0 s * c ^ nat (N s), map (\<lambda>j. S0 s * c ^ j) [0..<nat (N s) + 1],
                ((\<lambda>g. snd (generate (rng s) g)) ^^ nat (N s)) g)"
proof -
  let ?p = "(replicate (nat (N s + 1)) 0)[0 := S0 s]"
  from step_loop_geometric [OF adv c, of "S0 s" 0 ?p g] initial steps
  obtain path' where
    run: "step_loop s dt 0 (S0 s) ?p g =
            Inr (c ^ nat (N s) * S0 s, path',
                 ((\<lambda>g. snd (generate (rng s) g)) ^^ nat (N s)) g)" and
    len: "length path' = nat (N s + 1)" and
    pre: "path' ! 0 = ?p ! 0" and
    post: "\<forall>k. 0 < k \<and> k \<le> nat (N s) \<longrightarrow> path' ! k = c ^ k * S0 s"
    by auto
  from steps have "?p ! 0 = S0 s" by simp
  with pre post have "path' ! k = S0 s * c ^ k" if "k \<le> nat (N s)" for k
    using that by (cases "k = 0") simp_all
  with len steps have "path' = map (\<lambda>j. S0 s * c ^ j) [0..<nat (N s) + 1]"
    by (intro nth_equalityI) (simp_all add: nat_add_distrib del: upt_Suc)
  with run show ?thesis by (auto simp: simulate_path_def mult.commute)
qed

lemma exp_one_gt_two: "2 < exp (1::real)"
proof -
  have "1 + (1/2::real) \<le> exp (1/2)" by (rule exp_ge_add_one_self)
  then have "(3/2::real)\<^sup>2 \<le> (exp (1/2))\<^sup>2" by (intro power_mono) simp_all
  also have "(exp (1/2::real))\<^sup>2 = exp 1"
    by (simp add: power2_eq_square flip: exp_add)
  finally show ?thesis by (simp add: power2_eq_square)
qed

text \<open>
  C2, as the specification states it, fails: with \<open>mu = 1\<close>, \<open>S0 = 1\<close>, \<open>T = 1\<close> and \<open>N = 1\<close>
  (so \<open>dt = 1\<close>) the Euler scheme produces the path \<open>1, 2\<close>, and \<open>S0 * e^(mu * 1 * dt)\<close> is
  \<open>e\<close>, which is larger than 2.
\<close>

theorem zero_volatility_counterexample:
  "simulate_path (example_solver (EulerMethod (GBM 1 0)) (EuropeanCall 1) 1 1 [3]) (1 / 1) [3]
     = Inr (2, [1, 2], []) \<and>
   [1, 2] \<noteq> [1 * exp (1 * (0 * (1 / 1))), 1 * exp (1 * (1 * (1 / 1 :: real)))]"
  using exp_one_gt_two
  by (simp add: example_simps)

text \<open>
  C2, amended: under a \<open>GBM\<close> model with \<open>sigma = 0\<close> the path that a scheme produces from
  \<open>S0\<close> in \<open>N\<close> steps of size \<open>dt = T / N\<close> is the same for all random draws, and it is
  geometric: \<open>S\<^sub>j = S0 * c\<^sup>j\<close> with \<open>c = 1 + mu * dt\<close> for Euler and Milstein and
  \<open>c = 1 + mu * dt + (mu * dt)\<^sup>2 / 2\<close> for the predictor-corrector scheme. (A negative \<open>c\<close>
  makes the first step negative, which ends the run with \<open>NegativeAssetPrice\<close>.) This is the
  path \<open>S0 * e^(mu * j * dt)\<close> when \<open>mu = 0\<close>, where \<open>c = 1\<close>.
\<close>

theorem zero_volatility_path:
  assumes "MCSolver_new config = Inr s"
    and "fdm s \<in> {EulerMethod (GBM mu 0), MilsteinMethod (GBM mu 0),
                  DriftAdjustedPredictorCorrector (GBM mu 0)}"
    and "dt = T s / of_int (N s)"
    and "c = zero_volatility_growth (fdm s) (mu * dt)"
  shows "simulate_path s dt g =
           (if c < 0 then Inl NegativeAssetPrice
            else Inr (S0 s * c ^ nat (N s), map (\<lambda>j. S0 s * c ^ j) [0..<nat (N s) + 1],
                      ((\<lambda>g. snd (generate (rng s) g)) ^^ nat (N s)) g)) \<and>
         (mu = 0 \<longrightarrow> c = 1 \<and> exp (mu * (of_nat j * dt)) = c ^ j)"
proof -
  from assms(1) have valid: "0 < S0 s" "0 < T s" "0 < N s"
    by (simp_all add: MCSolver_new_valid)
  then have "0 < T s / of_int (N s)" by simp
  with assms(3) have dt: "0 < dt" by simp
  have adv: "\<forall>S t dW. advance (fdm s) S t dt dW = Inr (c * S)"
    using advance_zero_volatility [OF dt assms(2)] assms(4) by simp
  have "simulate_path s dt g = Inl NegativeAssetPrice" if "c < 0"
  proof -
    obtain z g1 where gen: "generate (rng s) g = (z, g1)" by (cases "generate (rng s) g")
    from that valid(1) have "c * S0 s < 0" by (simp add: mult_neg_pos)
    with valid(3) gen adv show ?thesis
      by (simp add: simulate_path_def step_loop.simps [of s dt 0])
  qed
  moreover have "c = 1 \<and> exp (mu * (of_nat j * dt)) = c ^ j" if "mu = 0"
    using that assms(2,4) by auto
  ultimately show ?thesis
    using simulate_path_geometric [OF adv _ valid(1,3), of g] by (simp add: not_less)
qed

text \<open>
  Three runs of two steps with \<open>dt = 1\<close>: the predictor-corrector scheme with \<open>mu = 1\<close>
  (\<open>c = 5/2\<close>), the Euler scheme with \<open>mu = - 2\<close> (\<open>c = - 1\<close>) and the Milstein scheme with
  \<open>mu = 0\<close> (\<open>c = 1\<close>).
\<close>

theorem zero_volatility_path_witness:
  "MCSolver_new
     (example_config (DriftAdjustedPredictorCorrector (GBM 1 0)) (EuropeanCall 1) 2 1 [5, 7])
     = Inr (example_solver (DriftAdjustedPredictorCorrector (GBM 1 0)) (EuropeanCall 1) 2 1 [5, 7]) \<and>
   simulate_path
     (example_solver (DriftAdjustedPredictorCorrector (GBM 1 0)) (EuropeanCall 1) 2 1 [5, 7])
     1 [5, 7]
     = Inr (25 / 4, [1, 5 / 2, 25 / 4], []) \<and>
   simulate_path (example_solver (EulerMethod (GBM (- 2) 0)) (EuropeanCall 1) 2 1 [5, 7]) 1 [5, 7]
     = Inl NegativeAssetPrice \<and>
   simulate_path (example_solver (MilsteinMethod (GBM 0 0)) (EuropeanCall 1) 2 1 [5, 7]) 1 [5, 7]
     = Inr (1, [1, 1, 1], []) \<and>
   exp (0 * (of_nat 2 * 1)) = (1::real) ^ 2"
proof -
  let ?a = "example_solver (DriftAdjustedPredictorCorrector (GBM 1 0)) (EuropeanCall 1) 2 1 [5, 7]"
  let ?b = "example_solver (EulerMethod (GBM (- 2) 0)) (EuropeanCall 1) 2 1 [5, 7]"
  let ?c = "example_solver (MilsteinMethod (GBM 0 0)) (EuropeanCall 1) 2 1 [5, 7]"
  have valid_a: "MCSolver_new
      (example_config (DriftAdjustedPredictorCorrector (GBM 1 0)) (EuropeanCall 1) 2 1 [5, 7])
      = Inr ?a"
    and valid_b: "MCSolver_new
      (example_config (EulerMethod (GBM (- 2) 0)) (EuropeanCall 1) 2 1 [5, 7]) = Inr ?b"
    and valid_c: "MCSolver_new
      (example_config (MilsteinMethod (GBM 0 0)) (EuropeanCall 1) 2 1 [5, 7]) = Inr ?c"
    by (simp_all add: example_valid)
  have a: "fdm ?a \<in> {EulerMethod (GBM 1 0), MilsteinMethod (GBM 1 0),
      DriftAdjustedPredictorCorrector (GBM 1 0)}"
    "(1::real) = T ?a / of_int (N ?a)"
    "(5 / 2 :: real) = zero_volatility_growth (fdm ?a) (1 * 1)"
    by (simp_all add: example_solver_def)
  have b: "fdm ?b \<in> {EulerMethod (GBM (- 2) 0), MilsteinMethod (GBM (- 2) 0),
      DriftAdjustedPredictorCorrector (GBM (- 2) 0)}"
    "(1::real) = T ?b / of_int (N ?b)"
    "(- 1 :: real) = zero_volatility_growth (fdm ?b) (- 2 * 1)"
    by (simp_all add: example_solver_def)
  have c: "fdm ?c \<in> {EulerMethod (GBM 0 0), MilsteinMethod (GBM 0 0),
      DriftAdjustedPredictorCorrector (GBM 0 0)}"
    "(1::real) = T ?c / of_int (N ?c)"
    "(1 :: real) = zero_volatility_growth (fdm ?c) (0 * 1)"
    by (simp_all add: example_solver_def)
  from zero_volatility_path [OF valid_a a, of "[5, 7]" 2]
    zero_volatility_path [OF valid_b b, of "[5, 7]" 2]
    zero_volatility_path [OF valid_c c, of "[5, 7]" 2] valid_a
  show ?thesis
    by (simp add: example_solver_def numeral_2_eq_2 numeral_3_eq_3 power2_eq_square)
qed

subsection \<open>Negative prices\<close>

lemma visited_run:
  assumes "visited s st"
  shows "case st of (i, j, S, g) \<Rightarrow> i < M s \<longrightarrow>
    (\<exists>path payoff_sum.
       path_loop s (T s / of_int (N s)) 0 (Some 0) (generator (rng s)) =
         (case step_loop s (T s / of_int (N s)) j S path g of
            Inl e \<Rightarrow> Inl e
          | Inr (S', path', g') \<Rightarrow>
              path_loop s (T s / of_int (N s)) (i + 1)
                (accumulate payoff_sum (evaluate_payoff (payoff s) S' path')) g'))"
  using assms
proof induction
  case start
  show ?case
    by (auto simp: path_loop.simps [of s _ 0] simulate_path_def)
next
  case (step i j S g S')
  from step.IH step.hyps(2) obtain path payoff_sum where
    run: "path_loop s (T s / of_int (N s)) 0 (Some 0) (generator (rng s)) =
         (case step_loop s (T s / of_int (N s)) j S path g of
            Inl e \<Rightarrow> Inl e
          | Inr (S', path', g') \<Rightarrow>
              path_loop s (T s / of_int (N s)) (i + 1)
                (accumulate payoff_sum (evaluate_payoff (payoff s) S' path')) g')"
    by auto
  have "step_loop s (T s / of_int (N s)) j S path g =
          step_loop s (T s / of_int (N s)) (j + 1) S' (path[nat (j + 1) := S'])
            (snd (generate (rng s) g))"
    using step.hyps(3,4,5) by (simp add: step_loop_unfold)
  with run show ?case by auto
next
  case (next_path i j S g)
  from next_path.IH next_path.hyps(2) obtain path payoff_sum where
    run: "path_loop s (T s / of_int (N s)) 0 (Some 0) (generator (rng s)) =
         (case step_loop s (T s / of_int (N s)) j S path g of
            Inl e \<Rightarrow> Inl e
          | Inr (S', path', g') \<Rightarrow>
              path_loop s (T s / of_int (N s)) (i + 1)
                (accumulate payoff_sum (evaluate_payoff (payoff s) S' path')) g')"
    by auto
  have "step_loop s (T s / of_int (N s)) j S path g = Inr (S, path, g)"
    using next_path.hyps(3) by (simp add: step_loop.simps)
  with run have "path_loop s (T s / of_int (N s)) 0 (Some 0) (generator (rng s)) =
      path_loop s (T s / of_int (N s)) (i + 1)
        (accumulate payoff_sum (evaluate_payoff (payoff s) S path)) g"
    by simp
  then show ?case
    by (auto simp: path_loop.simps [of s _ "i + 1"] simulate_path_def)
qed

lemma goes_negative_aborts:
  assumes "goes_negative s"
  shows "path_loop s (T s / of_int (N s)) 0 (Some 0) (generator (rng s))
           = Inl NegativeAssetPrice"
proof -
  from assms obtain i j S g S' where
    v: "visited s (i, j, S, g)" and i: "i < M s" and j: "j < N s" and
    nxt: "next_state s j S g = Inr S'" and neg: "S' < 0"
    unfolding goes_negative_def by blast
  from visited_run [OF v] i obtain path payoff_sum where
    run: "path_loop s (T s / of_int (N s)) 0 (Some 0) (generator (rng s)) =
         (case step_loop s (T s / of_int (N s)) j S path g of
            Inl e \<Rightarrow> Inl e
          | Inr (S', path', g') \<Rightarrow>
              path_loop s (T s / of_int (N s)) (i + 1)
                (accumulate payoff_sum (evaluate_payoff (payoff s) S' path')) g')"
    by auto
  have "step_loop s (T s / of_int (N s)) j S path g = Inl NegativeAssetPrice"
    using j nxt neg by (simp add: step_loop_unfold)
  with run show ?thesis by simp
qed

lemma step_loop_negative:
  "dt = T s / of_int (N s) \<Longrightarrow> visited s (i, j, S, g) \<Longrightarrow> i < M s \<Longrightarrow>
   step_loop s dt j S path g = Inl NegativeAssetPrice \<Longrightarrow> goes_negative s"
proof (induction s dt j S path g rule: step_loop.induct)
  case (1 s dt j S path g)
  note dt = "1.prems"(1) and v = "1.prems"(2) and i = "1.prems"(3) and fail = "1.prems"(4)
  show ?case
  proof (cases "j < N s")
    case False
    with fail show ?thesis by (simp add: step_loop.simps)
  next
    case True
    show ?thesis
    proof (cases "next_state s j S g")
      case (Inl e)
      then have "e = InvalidStepSize"
        by (auto simp: next_state_def Let_def dest: advance_error)
      with Inl fail True dt show ?thesis by (simp add: step_loop_unfold)
    next
      case (Inr S')
      show ?thesis
      proof (cases "S' < 0")
        case neg: True
        with v i True Inr show ?thesis unfolding goes_negative_def by blast
      next
        case nonneg: False
        obtain z g' where gen: "generate (rng s) g = (z, g')"
          by (cases "generate (rng s) g")
        from Inr gen dt have adv: "advance (fdm s) S (of_int j * dt) dt (sqrt dt * z) = Inr S'"
          by (simp add: next_state_def Let_def)
        have v': "visited s (i, j + 1, S', g')"
          using visited.step [OF v i True Inr nonneg] gen by simp
        have "step_loop s dt (j + 1) S' (path[nat (j + 1) := S']) g' = Inl NegativeAssetPrice"
          using fail True Inr nonneg gen dt by (simp add: step_loop_unfold)
        from "1.IH" [OF True gen [symmetric] refl adv nonneg dt v' i this]
        show ?thesis .
      qed
    qed
  qed
qed

lemma step_loop_visited:
  "dt = T s / of_int (N s) \<Longrightarrow> visited s (i, j, S, g) \<Longrightarrow> i < M s \<Longrightarrow>
   step_loop s dt j S path g = Inr (S', path', g') \<Longrightarrow>
   \<exists>j'. visited s (i, j', S', g') \<and> \<not> j' < N s"
proof (induction s dt j S path g rule: step_loop.induct)
  case (1 s dt j S path g)
  note dt = "1.prems"(1) and v = "1.prems"(2) and i = "1.prems"(3) and ok = "1.prems"(4)
  show ?case
  proof (cases "j < N s")
    case False
    with ok v show ?thesis by (auto simp: step_loop.simps)
  next
    case True
    obtain z g1 where gen: "generate (rng s) g = (z, g1)" by (cases "generate (rng s) g")
    from ok True dt obtain S1 where nxt: "next_state s j S g = Inr S1" and nonneg: "\<not> S1 < 0"
      and rest: "step_loop s dt (j + 1) S1 (path[nat (j + 1) := S1]) g1 = Inr (S', path', g')"
      using gen by (auto simp: step_loop_unfold split: sum.splits if_splits)
    from nxt gen dt have adv: "advance (fdm s) S (of_int j * dt) dt (sqrt dt * z) = Inr S1"
      by (simp add: next_state_def Let_def)
    have v': "visited s (i, j + 1, S1, g1)"
      using visited.step [OF v i True nxt nonneg] gen by simp
    from "1.IH" [OF True gen [symmetric] refl adv nonneg dt v' i rest]
    show ?thesis .
  qed
qed

lemma path_loop_negative:
  "dt = T s / of_int (N s) \<Longrightarrow> visited s (i, 0, S0 s, g) \<Longrightarrow>
   path_loop s dt i payoff_sum g = Inl NegativeAssetPrice \<Longrightarrow> goes_negative s"
proof (induction s dt i payoff_sum g rule: path_loop.induct)
  case (1 s dt i payoff_sum g)
  note dt = "1.prems"(1) and v = "1.prems"(2) and fail = "1.prems"(3)
  show ?case
  proof (cases "i < M s")
    case False
    with fail show ?thesis by (simp add: path_loop.simps)
  next
    case True
    show ?thesis
    proof (cases "simulate_path s dt g")
      case (Inl e)
      with fail True have "simulate_path s dt g = Inl NegativeAssetPrice"
        by (simp add: path_loop.simps [of s dt i])
      then show ?thesis
        using step_loop_negative [OF dt v True] by (simp add: simulate_path_def)
    next
      case (Inr r)
      obtain S path g' where r: "r = (S, path, g')" by (cases r)
      from Inr r have "step_loop s dt 0 (S0 s) ((replicate (nat (N s + 1)) 0)[0 := S0 s]) g
                         = Inr (S, path, g')"
        by (simp add: simulate_path_def)
      from step_loop_visited [OF dt v True this]
      obtain j' where v': "visited s (i, j', S, g')" and fin: "\<not> j' < N s"
        by blast
      have v'': "visited s (i + 1, 0, S0 s, g')"
        using visited.next_path [OF v' True fin] .
      have "path_loop s dt (i + 1) (accumulate payoff_sum (evaluate_payoff (payoff s) S path)) g'
              = Inl NegativeAssetPrice"
        using fail True Inr r by (simp add: path_loop.simps [of s dt i])
      from "1.IH" [OF True Inr [unfolded r] refl refl dt v'' this]
      show ?thesis .
    qed
  qed
qed

text \<open>
  C6: a run of \<open>solve\<close> ends with \<open>NegativeAssetPrice\<close> exactly when, at some step of some
  simulation that the run reaches, \<open>advance\<close> returns a state below zero. The step that
  meets such a state ends the loop over the time steps at once, whatever steps remain, and
  a simulation that ends with an exception ends the loop over the simulations with the same
  exception, whatever simulations remain; no price is returned, and the state is not
  replaced by zero.
\<close>

theorem solve_NegativeAssetPrice:
  assumes "MCSolver_new config = Inr s"
  shows "(solve s = Inl NegativeAssetPrice \<longleftrightarrow>
            (\<exists>i j S g S'. visited s (i, j, S, g) \<and> i < M s \<and> j < N s \<and>
               next_state s j S g = Inr S' \<and> S' < 0)) \<and>
         (j < N s \<and> next_state s j S g = Inr S' \<and> S' < 0 \<longrightarrow>
            step_loop s (T s / of_int (N s)) j S path g = Inl NegativeAssetPrice) \<and>
         (i < M s \<and> simulate_path s dt g = Inl e \<longrightarrow>
            path_loop s dt i payoff_sum g = Inl e)"
proof -
  from assms have "0 < T s" "0 < N s" by (simp_all add: MCSolver_new_valid)
  then have "0 < T s / of_int (N s)" by simp
  then have dt: "\<not> T s / of_int (N s) \<le> 0" by linarith
  have "solve s = Inl NegativeAssetPrice \<longleftrightarrow>
          path_loop s (T s / of_int (N s)) 0 (Some 0) (generator (rng s))
            = Inl NegativeAssetPrice"
    using dt by (auto simp: solve_def Let_def split: sum.splits option.splits)
  also have "\<dots> \<longleftrightarrow> goes_negative s"
    using goes_negative_aborts [of s] path_loop_negative [OF refl visited.start, of s "Some 0"]
    by blast
  finally have run: "solve s = Inl NegativeAssetPrice \<longleftrightarrow>
            (\<exists>i j S g S'. visited s (i, j, S, g) \<and> i < M s \<and> j < N s \<and>
               next_state s j S g = Inr S' \<and> S' < 0)"
    by (simp add: goes_negative_def)
  have inner: "step_loop s (T s / of_int (N s)) j S path g = Inl NegativeAssetPrice"
    if "j < N s" "next_state s j S g = Inr S'" "S' < 0"
    using that by (simp add: step_loop_unfold)
  have outer: "path_loop s dt i payoff_sum g = Inl e"
    if "i < M s" "simulate_path s dt g = Inl e"
    using that by (simp add: path_loop.simps [of s dt i])
  from run inner outer show ?thesis by blast
qed

text \<open>
  Two simulations of one step: the first draw 1 takes the price from 1 to 2, the second
  draw \<open>- 2\<close> takes the price of the second simulation from 1 to \<open>- 1\<close>.
\<close>

theorem solve_NegativeAssetPrice_witness:
  "MCSolver_new (example_config (EulerMethod (GBM 0 1)) (EuropeanCall 1) 1 2 [1, - 2])
     = Inr (example_solver (EulerMethod (GBM 0 1)) (EuropeanCall 1) 1 2 [1, - 2]) \<and>
   next_state (example_solver (EulerMethod (GBM 0 1)) (EuropeanCall 1) 1 2 [1, - 2]) 0 1 [- 2]
     = Inr (- 1) \<and>
   step_loop (example_solver (EulerMethod (GBM 0 1)) (EuropeanCall 1) 1 2 [1, - 2])
     1 0 1 [1, 0] [- 2] = Inl NegativeAssetPrice \<and>
   path_loop (example_solver (EulerMethod (GBM 0 1)) (EuropeanCall 1) 1 2 [1, - 2])
     1 1 (Some 1) [- 2] = Inl NegativeAssetPrice \<and>
   solve (example_solver (EulerMethod (GBM 0 1)) (EuropeanCall 1) 1 2 [1, - 2])
     = Inl NegativeAssetPrice \<and>
   (\<exists>i j S g S'.
      visited (example_solver (EulerMethod (GBM 0 1)) (EuropeanCall 1) 1 2 [1, - 2]) (i, j, S, g) \<and>
      i < 2 \<and> j < 1 \<and>
      next_state (example_solver (EulerMethod (GBM 0 1)) (EuropeanCall 1) 1 2 [1, - 2]) j S g
        = Inr S' \<and> S' < 0)"
proof -
  let ?s = "example_solver (EulerMethod (GBM 0 1)) (EuropeanCall 1) 1 2 [1, - 2]"
  have valid: "MCSolver_new (example_config (EulerMethod (GBM 0 1)) (EuropeanCall 1) 1 2 [1, - 2])
      = Inr ?s"
    by (simp add: example_valid)
  have nxt: "next_state ?s 0 1 [- 2] = Inr (- 1)"
    by (simp add: next_state_def example_solver_def GBM_def)
  have sim: "simulate_path ?s 1 [- 2] = Inl NegativeAssetPrice"
    by (simp add: example_simps)
  have run: "solve ?s = Inl NegativeAssetPrice"
    by (simp add: example_simps)
  have fields: "N ?s = 1" "M ?s = 2" "T ?s = 1"
    by (simp_all add: example_solver_def)
  from solve_NegativeAssetPrice [OF valid, where j = 0 and S = 1 and g = "[- 2]"
      and S' = "- 1" and path = "[1, 0]" and i = 1 and dt = 1 and e = NegativeAssetPrice
      and payoff_sum = "Some 1"]
    valid nxt sim run
  show ?thesis
    unfolding fields by simp
qed

subsection \<open>Determinism\<close>

lemma step_loop_draws:
  fixes s1 :: "'a MCSolver" and s2 :: "'b MCSolver"
  shows "fdm s1 = fdm s2 \<Longrightarrow> N s1 = N s2 \<Longrightarrow>
         draws (generate (rng s1)) g1 k = draws (generate (rng s2)) g2 k \<Longrightarrow>
         nat (N s1 - j) \<le> k \<Longrightarrow>
         (case step_loop s1 dt j S path g1 of
            Inl e \<Rightarrow> step_loop s2 dt j S path g2 = Inl e
          | Inr (S', path', g1') \<Rightarrow>
              (\<exists>g2'. step_loop s2 dt j S path g2 = Inr (S', path', g2') \<and>
                     draws (generate (rng s1)) g1' (k - nat (N s1 - j))
                       = draws (generate (rng s2)) g2' (k - nat (N s1 - j))))"
proof (induction s1 dt j S path g1 arbitrary: g2 k rule: step_loop.induct)
  case (1 s1 dt j S path g1)
  note cfg = "1.prems"(1,2) and eq = "1.prems"(3) and le = "1.prems"(4)
  show ?case
  proof (cases "j < N s1")
    case False
    moreover from False cfg have "\<not> j < N s2" by simp
    ultimately show ?thesis using eq
      by (simp add: step_loop.simps [of s1 dt j] step_loop.simps [of s2 dt j])
  next
    case True
    obtain z g1n where gen1: "generate (rng s1) g1 = (z, g1n)"
      by (cases "generate (rng s1) g1")
    obtain z2 g2n where gen2: "generate (rng s2) g2 = (z2, g2n)"
      by (cases "generate (rng s2) g2")
    from True le obtain k' where k: "k = Suc k'"
      by (cases k) auto
    from eq gen1 gen2 k have z: "z2 = z"
      and rest: "draws (generate (rng s1)) g1n k' = draws (generate (rng s2)) g2n k'"
      by simp_all
    from True le k have bound: "nat (N s1 - (j + 1)) \<le> k'" by linarith
    from True k have shift: "k - nat (N s1 - j) = k' - nat (N s1 - (j + 1))" by linarith
    show ?thesis
    proof (cases "advance (fdm s1) S (of_int j * dt) dt (sqrt dt * z)")
      case (Inl e)
      with True gen1 gen2 z cfg show ?thesis
        by (simp add: step_loop.simps [of s1 dt j] step_loop.simps [of s2 dt j])
    next
      case (Inr S1)
      show ?thesis
      proof (cases "S1 < 0")
        case neg: True
        with Inr True gen1 gen2 z cfg show ?thesis
          by (simp add: step_loop.simps [of s1 dt j] step_loop.simps [of s2 dt j])
      next
        case nonneg: False
        have unfold1: "step_loop s1 dt j S path g1
                        = step_loop s1 dt (j + 1) S1 (path[nat (j + 1) := S1]) g1n"
          using Inr True gen1 nonneg by (simp add: step_loop.simps [of s1 dt j])
        have unfold2: "step_loop s2 dt j S path g2
                        = step_loop s2 dt (j + 1) S1 (path[nat (j + 1) := S1]) g2n"
          using Inr True gen2 z cfg nonneg by (simp add: step_loop.simps [of s2 dt j])
        from "1.IH" [OF True gen1 [symmetric] refl Inr nonneg cfg rest bound]
        show ?thesis unfolding unfold1 unfold2 shift .
      qed
    qed
  qed
qed

lemma path_loop_draws:
  fixes s1 :: "'a MCSolver" and s2 :: "'b MCSolver"
  shows "fdm s1 = fdm s2 \<Longrightarrow> payoff s1 = payoff s2 \<Longrightarrow> S0 s1 = S0 s2 \<Longrightarrow>
         N s1 = N s2 \<Longrightarrow> M s1 = M s2 \<Longrightarrow>
         draws (generate (rng s1)) g1 k = draws (generate (rng s2)) g2 k \<Longrightarrow>
         nat (M s1 - i) * nat (N s1) \<le> k \<Longrightarrow>
         map_sum id fst (path_loop s1 dt i payoff_sum g1)
           = map_sum id fst (path_loop s2 dt i payoff_sum g2)"
proof (induction s1 dt i payoff_sum g1 arbitrary: g2 k rule: path_loop.induct)
  case (1 s1 dt i payoff_sum g1)
  note cfg = "1.prems"(1-5) and eq = "1.prems"(6) and le = "1.prems"(7)
  show ?case
  proof (cases "i < M s1")
    case False
    moreover from False cfg have "\<not> i < M s2" by simp
    ultimately show ?thesis
      by (simp add: path_loop.simps [of s1 dt i] path_loop.simps [of s2 dt i])
  next
    case True
    then have split: "nat (M s1 - i) * nat (N s1)
                        = nat (N s1) + nat (M s1 - (i + 1)) * nat (N s1)"
    proof -
      from True have "nat (M s1 - i) = Suc (nat (M s1 - (i + 1)))" by linarith
      then show ?thesis by simp
    qed
    with le have enough: "nat (N s1 - 0) \<le> k"
      by simp
    from split le have bound: "nat (M s1 - (i + 1)) * nat (N s1) \<le> k - nat (N s1 - 0)"
      by simp linarith
    note inner = step_loop_draws [OF cfg(1) cfg(4) eq enough,
        of dt "S0 s1" "(replicate (nat (N s1 + 1)) 0)[0 := S0 s1]"]
    show ?thesis
    proof (cases "simulate_path s1 dt g1")
      case (Inl e)
      with inner cfg have "simulate_path s2 dt g2 = Inl e"
        by (simp add: simulate_path_def)
      with Inl True cfg show ?thesis
        by (simp add: path_loop.simps [of s1 dt i] path_loop.simps [of s2 dt i])
    next
      case (Inr r)
      obtain S path g1n where r: "r = (S, path, g1n)" by (cases r)
      with Inr inner cfg obtain g2n where
        sim2: "simulate_path s2 dt g2 = Inr (S, path, g2n)" and
        rest: "draws (generate (rng s1)) g1n (k - nat (N s1 - 0))
                 = draws (generate (rng s2)) g2n (k - nat (N s1 - 0))"
        by (auto simp: simulate_path_def)
      have unfold1: "path_loop s1 dt i payoff_sum g1
          = path_loop s1 dt (i + 1)
              (accumulate payoff_sum (evaluate_payoff (payoff s1) S path)) g1n"
        using Inr r True by (simp add: path_loop.simps [of s1 dt i])
      have unfold2: "path_loop s2 dt i payoff_sum g2
          = path_loop s2 dt (i + 1)
              (accumulate payoff_sum (evaluate_payoff (payoff s1) S path)) g2n"
        using sim2 True cfg by (simp add: path_loop.simps [of s2 dt i])
      from "1.IH" [OF True Inr [unfolded r] refl refl cfg rest bound]
      show ?thesis unfolding unfold1 unfold2 .
    qed
  qed
qed

text \<open>
  C8: two runs of \<open>solve\<close> with the same configuration whose random sources return the same
  sequence of draws (the \<open>M * N\<close> draws that a run can consume) have the same outcome: the
  same price, or the same exception. Two random sources built from the same seed are in
  the same state and return the same draws.
\<close>

theorem solve_deterministic:
  fixes s1 :: "'a MCSolver" and s2 :: "'b MCSolver"
  assumes "fdm s1 = fdm s2" "payoff s1 = payoff s2"
    "S0 s1 = S0 s2" "T s1 = T s2" "N s1 = N s2" "M s1 = M s2"
    and "draws (generate (rng s1)) (generator (rng s1)) (nat (M s1) * nat (N s1))
           = draws (generate (rng s2)) (generator (rng s2)) (nat (M s1) * nat (N s1))"
  shows "map_sum id fst (solve s1) = map_sum id fst (solve s2)"
proof -
  let ?dt = "T s1 / of_int (N s1)"
  have "map_sum id fst (path_loop s1 ?dt 0 (Some 0) (generator (rng s1)))
          = map_sum id fst (path_loop s2 ?dt 0 (Some 0) (generator (rng s2)))"
    using path_loop_draws [OF assms(1,2,3,5,6) assms(7), of 0 ?dt "Some 0"] by simp
  then show ?thesis
    using assms(4,5,6)
    by (auto simp: solve_def Let_def split: sum.splits option.splits)
qed

text \<open>
  Two runs of two simulations of one step: the random sources agree on the two draws that
  the runs consume and differ afterwards.
\<close>

theorem solve_deterministic_witness:
  "draws replay [1, 2, 5] (nat 2 * nat 1) = draws replay [1, 2, 7, 9] (nat 2 * nat 1) \<and>
   map_sum id fst (solve (example_solver (EulerMethod (GBM 0 1)) (EuropeanCall 1) 1 2 [1, 2, 5]))
     = Inr (3 / 2) \<and>
   map_sum id fst
     (solve (example_solver (EulerMethod (GBM 0 1)) (EuropeanCall 1) 1 2 [1, 2, 7, 9]))
     = Inr (3 / 2)"
proof -
  let ?a = "example_solver (EulerMethod (GBM 0 1)) (EuropeanCall 1) 1 2 [1, 2, 5]"
  let ?b = "example_solver (EulerMethod (GBM 0 1)) (EuropeanCall 1) 1 2 [1, 2, 7, 9]"
  have same: "fdm ?a = fdm ?b" "payoff ?a = payoff ?b" "S0 ?a = S0 ?b" "T ?a = T ?b"
    "N ?a = N ?b" "M ?a = M ?b"
    by (simp_all add: example_solver_def)
  have stream: "draws replay [1, 2, 5] (nat 2 * nat 1) = draws replay [1, 2, 7, 9] (nat 2 * nat 1)"
    by (simp add: numeral_2_eq_2)
  then have "draws (generate (rng ?a)) (generator (rng ?a)) (nat (M ?a) * nat (N ?a))
      = draws (generate (rng ?b)) (generator (rng ?b)) (nat (M ?a) * nat (N ?a))"
    by (simp add: example_solver_def)
  from solve_deterministic [OF same this]
  have "map_sum id fst (solve ?a) = map_sum id fst (solve ?b)" .
  moreover have "map_sum id fst (solve ?a) = Inr (3 / 2)"
    by (simp add: example_simps)
  ultimately show ?thesis using stream by simp
qed

subsection \<open>Nonnegative prices of the option\<close>

lemma accumulate_nonneg:
  "\<exists>a. payoff_sum = Some a \<and> 0 \<le> a \<Longrightarrow> \<exists>v. value = Some v \<and> 0 \<le> v \<Longrightarrow>
   \<exists>b. accumulate payoff_sum value = Some b \<and> 0 \<le> b"
  by auto

lemma path_loop_error:
  "path_loop s dt i payoff_sum g = Inl e \<Longrightarrow> e = InvalidStepSize \<or> e = NegativeAssetPrice"
proof (induction s dt i payoff_sum g rule: path_loop.induct)
  case (1 s dt i payoff_sum g)
  show ?case
  proof (cases "i < M s")
    case False
    with "1.prems" show ?thesis by (simp add: path_loop.simps)
  next
    case True
    show ?thesis
    proof (cases "simulate_path s dt g")
      case (Inl e')
      with True "1.prems" have "e = e'" by (simp add: path_loop.simps [of s dt i])
      with Inl show ?thesis by (auto simp: simulate_path_def dest: step_loop_error)
    next
      case (Inr r)
      obtain S path g' where r: "r = (S, path, g')" by (cases r)
      with Inr True "1.prems"
      have "path_loop s dt (i + 1) (accumulate payoff_sum (evaluate_payoff (payoff s) S path)) g'
              = Inl e"
        by (simp add: path_loop.simps [of s dt i])
      from "1.IH" [OF True Inr [unfolded r] refl refl this] show ?thesis .
    qed
  qed
qed

lemma path_loop_nonneg:
  "path_loop s dt i payoff_sum g = Inr (r, g') \<Longrightarrow> 0 < S0 s \<Longrightarrow> 0 < N s \<Longrightarrow>
   \<exists>a. payoff_sum = Some a \<and> 0 \<le> a \<Longrightarrow> \<exists>b. r = Some b \<and> 0 \<le> b"
proof (induction s dt i payoff_sum g rule: path_loop.induct)
  case (1 s dt i payoff_sum g)
  note run = "1.prems"(1) and valid = "1.prems"(2,3) and acc = "1.prems"(4)
  show ?case
  proof (cases "i < M s")
    case False
    with run acc show ?thesis by (simp add: path_loop.simps)
  next
    case True
    with run obtain S path g1 where
      sim: "simulate_path s dt g = Inr (S, path, g1)" and
      rest: "path_loop s dt (i + 1) (accumulate payoff_sum (evaluate_payoff (payoff s) S path)) g1
               = Inr (r, g')"
      by (subst (asm) path_loop.simps) (auto split: sum.splits)
    from simulate_path_payoff_defined [OF sim valid]
    obtain v where v: "evaluate_payoff (payoff s) S path = Some v" by blast
    then have "0 \<le> v" by (rule evaluate_payoff_nonneg)
    with v acc have "\<exists>b. accumulate payoff_sum (evaluate_payoff (payoff s) S path) = Some b \<and> 0 \<le> b"
      by (intro accumulate_nonneg) simp_all
    from "1.IH" [OF True sim refl refl rest valid this] show ?thesis .
  qed
qed

text \<open>
  C10: the payoff at one price is never negative, for each of the four payoffs, and it is 0
  for the Asian option; on a non-empty path of positive prices the payoff on the path is a
  number and not negative; and a solver that the constructor has accepted returns a number
  whenever it returns, which is not negative.
\<close>

theorem payoff_nonneg:
  "0 \<le> payoff_at p S \<and>
   payoff_at (AsianOption K isCall) S = 0 \<and>
   (path \<noteq> [] \<and> (\<forall>price \<in> set path. 0 < price) \<longrightarrow>
      (\<exists>v. payoff_on_path p path = Some v \<and> 0 \<le> v)) \<and>
   (MCSolver_new config = Inr s \<longrightarrow>
      solve s \<noteq> Inl Undefined \<and> (\<forall>v s'. solve s = Inr (v, s') \<longrightarrow> 0 \<le> v))"
proof -
  have on_path: "\<exists>v. payoff_on_path p path = Some v \<and> 0 \<le> v"
    if "path \<noteq> []" "\<forall>price \<in> set path. 0 < price"
  proof -
    from that(2) have "\<forall>price \<in> set path. 0 \<le> price" by (auto intro: less_imp_le)
    with that(1) obtain v where "payoff_on_path p path = Some v"
      using payoff_on_path_defined by blast
    then show ?thesis by (auto dest: payoff_on_path_nonneg)
  qed
  have run: "solve s \<noteq> Inl Undefined \<and> (\<forall>v s'. solve s = Inr (v, s') \<longrightarrow> 0 \<le> v)"
    if valid: "MCSolver_new config = Inr s"
  proof -
    from valid have pos: "0 < S0 s" "0 < N s" "0 < M s"
      by (simp_all add: MCSolver_new_valid)
    let ?run = "path_loop s (T s / of_int (N s)) 0 (Some 0) (generator (rng s))"
    show ?thesis
    proof (cases ?run)
      case (Inl e)
      then have "e \<noteq> Undefined" by (auto dest: path_loop_error)
      with Inl show ?thesis by (auto simp: solve_def Let_def)
    next
      case (Inr r)
      obtain payoff_sum g' where r: "r = (payoff_sum, g')" by (cases r)
      with Inr pos obtain b where b: "payoff_sum = Some b" "0 \<le> b"
        using path_loop_nonneg [of s _ 0 "Some 0" _ payoff_sum g'] by auto
      from b(2) pos(3) have "0 \<le> b / of_int (M s)" by simp
      with Inr r b(1) show ?thesis by (auto simp: solve_def Let_def)
    qed
  qed
  from on_path run show ?thesis by (simp add: payoff_at_nonneg)
qed

theorem payoff_nonneg_witness:
  "[1, 2 :: real] \<noteq> [] \<and> (0::real) < 1 \<and> (0::real) < 2 \<and>
   (\<exists>v. payoff_on_path (EuropeanPut 3) [1, 2] = Some v \<and> 0 \<le> v) \<and>
   MCSolver_new (example_config (EulerMethod (GBM 0 1)) (AsianOption (1 / 2) True) 1 2 [0, 0])
     = Inr (example_solver (EulerMethod (GBM 0 1)) (AsianOption (1 / 2) True) 1 2 [0, 0]) \<and>
   solve (example_solver (EulerMethod (GBM 0 1)) (AsianOption (1 / 2) True) 1 2 [0, 0])
     = Inr (1 / 2, example_solver (EulerMethod (GBM 0 1)) (AsianOption (1 / 2) True) 1 2 []) \<and>
   (0::real) \<le> 1 / 2"
proof -
  let ?s = "example_solver (EulerMethod (GBM 0 1)) (AsianOption (1 / 2) True) 1 2 [0, 0]"
  have valid: "MCSolver_new
      (example_config (EulerMethod (GBM 0 1)) (AsianOption (1 / 2) True) 1 2 [0, 0]) = Inr ?s"
    by (simp add: example_valid)
  have run: "solve ?s
      = Inr (1 / 2, example_solver (EulerMethod (GBM 0 1)) (AsianOption (1 / 2) True) 1 2 [])"
    by (simp add: example_simps)
  from payoff_nonneg [of "EuropeanPut 3" 1 3 True "[1, 2]" _ ?s] valid run
  show ?thesis by simp
qed

end
